theory Spec2Isabelle
  imports Complex_Main "HOL-Library.Multiset" "HOL-Library.AList" "HOL-Library.Char_ord"
    "HOL-Library.List_Lexorder" "HOL-Library.Log_Nat"
begin

section \<open>Data model (internal/models)\<close>

text \<open>
  \<^verbatim>\<open>type RiskLevel string\<close> with the three constants of the source. The type is a
  string type in Go, so a value outside the three constants is possible; the inventory
  itself stores \<^verbatim>\<open>RiskLevel("UNKNOWN")\<close> and the zero value \<^verbatim>\<open>""\<close>.
\<close>

type_synonym RiskLevel = string

definition RiskAuto :: RiskLevel where
  "RiskAuto = ''AUTO''"

definition RiskManual :: RiskLevel where
  "RiskManual = ''MANUAL''"

definition RiskHigh :: RiskLevel where
  "RiskHigh = ''HIGH_RISK''"

record AnnotationRule =
  Name :: string
  Pattern :: string
  RiskLevel :: RiskLevel
  Description :: string
  MigrationNote :: string
  SourceURL :: string

record IngressResource =
  ResourceName :: string
  Namespace :: string
  ClassName :: string
  Annotations :: "(string \<times> string) list"
  Labels :: "(string \<times> string) list"
  Hosts :: "string list"
  Paths :: "string list"
  CreatedAt :: int

record IngressAnalysis =
  Resource :: IngressResource
  MatchedRules :: "AnnotationRule list"
  AnalysisRiskLevel :: RiskLevel
  UnknownAnnotations :: "string list"
  Warnings :: "string list"

record NamespaceSummary =
  NsAutoCount :: int
  NsManualCount :: int
  NsHighRiskCount :: int

record AnalysisSummary =
  TotalIngresses :: int
  AutoCount :: int
  ManualCount :: int
  HighRiskCount :: int
  ByNamespace :: "(string \<times> NamespaceSummary) list"

text \<open>
  A Go map is kept as an association list with one entry per key: \<^const>\<open>map_of\<close> reads
  it, \<^const>\<open>AList.update\<close> writes it (replacing the entry of a key that is present,
  adding one at the end otherwise), \<^const>\<open>length\<close> is \<^verbatim>\<open>len\<close>. A \<^verbatim>\<open>range\<close> loop over a
  map that the caller hands in visits the entries in the order of the list: Go fixes no
  order, so the list order of an input map stands for whatever order the run takes, and a
  statement for all lists covers all orders. Field names that two structs of the source
  share are prefixed in the later record (\<open>ResourceName\<close>, \<open>AnalysisRiskLevel\<close>,
  \<open>NsAutoCount\<close>, \<open>UsageDescription\<close>, \<open>InvUnknownAnnotations\<close>). \<^verbatim>\<open>int\<close> is
  \<^typ>\<open>int\<close>: every integer of the code counts entries held in memory.
\<close>

section \<open>Rule table, matching and risk resolution (pkg/rules)\<close>

text \<open>\<^verbatim>\<open>GetAnnotationRules\<close>: the eighteen rules, in the order of the source.\<close>

definition GetAnnotationRules :: "AnnotationRule list" where
  "GetAnnotationRules =
  [\<lparr>Name = ''Rewrite Target'',
    Pattern = ''nginx.ingress.kubernetes.io/rewrite-target'',
    RiskLevel = RiskAuto,
    Description = ''URL path rewriting functionality'',
    MigrationNote = ''Gateway API HTTPRoute supports path rewriting via URLRewrite filters (GEP-726). Most Gateway implementations support this feature.'',
    SourceURL = ''https://gateway-api.sigs.k8s.io/guides/http-redirect-rewrite/''\<rparr>,
   \<lparr>Name = ''SSL Redirect'',
    Pattern = ''nginx.ingress.kubernetes.io/ssl-redirect'',
    RiskLevel = RiskAuto,
    Description = ''Automatic HTTPS redirect'',
    MigrationNote = ''Gateway API HTTPRoute supports HTTPS redirects via RequestRedirect filters. Standard feature across Gateway implementations.'',
    SourceURL = ''https://gateway-api.sigs.k8s.io/guides/http-redirect-rewrite/''\<rparr>,
   \<lparr>Name = ''Force SSL Redirect'',
    Pattern = ''nginx.ingress.kubernetes.io/force-ssl-redirect'',
    RiskLevel = RiskAuto,
    Description = ''Force HTTPS redirect even for non-SSL listeners'',
    MigrationNote = ''Gateway API HTTPRoute supports HTTPS redirects via RequestRedirect filters. Similar implementation pattern to ssl-redirect.'',
    SourceURL = ''https://gateway-api.sigs.k8s.io/guides/http-redirect-rewrite/''\<rparr>,
   \<lparr>Name = ''Backend Protocol'',
    Pattern = ''nginx.ingress.kubernetes.io/backend-protocol'',
    RiskLevel = RiskManual,
    Description = ''Specifies protocol for backend communication (HTTP/HTTPS/GRPC/etc)'',
    MigrationNote = ''Gateway API BackendRef supports protocol fields, but implementation varies by Gateway provider. Verify your Gateway supports the required protocols.'',
    SourceURL = ''https://gateway-api.sigs.k8s.io/reference/spec/#backendref''\<rparr>,
   \<lparr>Name = ''Use Regex'',
    Pattern = ''nginx.ingress.kubernetes.io/use-regex'',
    RiskLevel = RiskManual,
    Description = ''Enable regex matching for paths'',
    MigrationNote = ''Gateway API HTTPRoute supports RegularExpression path matching (v1.1+). Verify your Gateway implementation supports regex and review syntax differences.'',
    SourceURL = ''https://gateway-api.sigs.k8s.io/reference/spec/#httppathmatch''\<rparr>,
   \<lparr>Name = ''Proxy Body Size'',
    Pattern = ''nginx.ingress.kubernetes.io/proxy-body-size'',
    RiskLevel = RiskManual,
    Description = ''Maximum size of the client request body'',
    MigrationNote = ''No standardized Gateway API equivalent. Gateway implementations may support request size limits via vendor-specific policies. Check your Gateway documentation.'',
    SourceURL = ''https://kubernetes.github.io/ingress-nginx/user-guide/nginx-configuration/annotations/#proxy-body-size''\<rparr>,
   \<lparr>Name = ''Proxy Read Timeout'',
    Pattern = ''nginx.ingress.kubernetes.io/proxy-read-timeout'',
    RiskLevel = RiskManual,
    Description = ''Timeout for reading response from backend'',
    MigrationNote = (''Gateway API may support timeouts via implementation-specific policies. Check your Gateway implementation'' @ [CHR 0x27] @ ''s policy support or use service mesh.''),
    SourceURL = ''https://kubernetes.github.io/ingress-nginx/user-guide/nginx-configuration/annotations/#proxy-read-timeout''\<rparr>,
   \<lparr>Name = ''Proxy Send Timeout'',
    Pattern = ''nginx.ingress.kubernetes.io/proxy-send-timeout'',
    RiskLevel = RiskManual,
    Description = ''Timeout for transmitting request to backend'',
    MigrationNote = ''Similar to read timeout - check Gateway implementation policy support or implement at application/service mesh level.'',
    SourceURL = ''https://kubernetes.github.io/ingress-nginx/user-guide/nginx-configuration/annotations/#proxy-send-timeout''\<rparr>,
   \<lparr>Name = ''Auth URL'',
    Pattern = ''nginx.ingress.kubernetes.io/auth-url'',
    RiskLevel = RiskManual,
    Description = ''External authentication service URL'',
    MigrationNote = (''Gateway API doesn'' @ [CHR 0x27] @ ''t standardize external auth, but many implementations support it. Consider OAuth2/OIDC policies or service mesh auth instead.''),
    SourceURL = ''https://kubernetes.github.io/ingress-nginx/user-guide/nginx-configuration/annotations/#auth-url''\<rparr>,
   \<lparr>Name = ''Proxy Connect Timeout'',
    Pattern = ''nginx.ingress.kubernetes.io/proxy-connect-timeout'',
    RiskLevel = RiskManual,
    Description = ''Timeout for establishing connection to backend'',
    MigrationNote = ''Check Gateway implementation support for connection timeouts or implement circuit breaker patterns at the application level.'',
    SourceURL = ''https://kubernetes.github.io/ingress-nginx/user-guide/nginx-configuration/annotations/#proxy-connect-timeout''\<rparr>,
   \<lparr>Name = ''Client Body Buffer Size'',
    Pattern = ''nginx.ingress.kubernetes.io/client-body-buffer-size'',
    RiskLevel = RiskManual,
    Description = ''Buffer size for reading client request body'',
    MigrationNote = ''Implementation-specific setting. Review if your application requires specific buffering behavior and implement accordingly.'',
    SourceURL = ''https://kubernetes.github.io/ingress-nginx/user-guide/nginx-configuration/annotations/#client-body-buffer-size''\<rparr>,
   \<lparr>Name = ''CORS Enable'',
    Pattern = ''nginx.ingress.kubernetes.io/enable-cors'',
    RiskLevel = RiskManual,
    Description = ''Enable CORS headers'',
    MigrationNote = ''Some Gateway implementations support CORS via policies. Alternatively, implement CORS at application level or via service mesh.'',
    SourceURL = ''https://kubernetes.github.io/ingress-nginx/user-guide/nginx-configuration/annotations/#enable-cors''\<rparr>,
   \<lparr>Name = ''Rate Limiting'',
    Pattern = ''nginx.ingress.kubernetes.io/rate-limit'',
    RiskLevel = RiskManual,
    Description = ''Request rate limiting configuration'',
    MigrationNote = ''Gateway API is developing rate limiting standards (GEP-1731). Check your Gateway implementation or use service mesh rate limiting.'',
    SourceURL = ''https://kubernetes.github.io/ingress-nginx/user-guide/nginx-configuration/annotations/#rate-limiting''\<rparr>,
   \<lparr>Name = ''Server Snippet'',
    Pattern = ''nginx.ingress.kubernetes.io/server-snippet'',
    RiskLevel = RiskHigh,
    Description = ''Custom NGINX server block configuration'',
    MigrationNote = ''Server snippets contain custom NGINX configuration that has no Gateway API equivalent. Review the configuration and implement equivalent functionality using Gateway policies, service mesh, or consider staying with NGINX Inc commercial controller.'',
    SourceURL = ''https://kubernetes.github.io/ingress-nginx/user-guide/nginx-configuration/annotations/#server-snippet''\<rparr>,
   \<lparr>Name = ''Configuration Snippet'',
    Pattern = ''nginx.ingress.kubernetes.io/configuration-snippet'',
    RiskLevel = RiskHigh,
    Description = ''Custom NGINX location block configuration'',
    MigrationNote = ''Configuration snippets require manual analysis and reimplementation. Consider Gateway API policies, service mesh capabilities, or application-level changes.'',
    SourceURL = ''https://kubernetes.github.io/ingress-nginx/user-guide/nginx-configuration/annotations/#configuration-snippet''\<rparr>,
   \<lparr>Name = ''Location Snippet'',
    Pattern = ''nginx.ingress.kubernetes.io/location-snippet'',
    RiskLevel = RiskHigh,
    Description = ''Custom NGINX location configuration'',
    MigrationNote = ''Location snippets need careful review for functionality. Map to Gateway API filters, policies, or service mesh configurations where possible.'',
    SourceURL = ''https://kubernetes.github.io/ingress-nginx/user-guide/nginx-configuration/annotations/#configuration-snippet''\<rparr>,
   \<lparr>Name = ''Stream Snippet'',
    Pattern = ''nginx.ingress.kubernetes.io/stream-snippet'',
    RiskLevel = RiskHigh,
    Description = ''Custom NGINX stream configuration for TCP/UDP'',
    MigrationNote = ''Stream snippets are for Layer 4 routing. Gateway API supports TCP/UDP via TCPRoute/UDPRoute, but custom stream logic requires reimplementation.'',
    SourceURL = ''https://gateway-api.sigs.k8s.io/reference/spec/#tcproute''\<rparr>,
   \<lparr>Name = ''Http Snippet'',
    Pattern = ''nginx.ingress.kubernetes.io/http-snippet'',
    RiskLevel = RiskHigh,
    Description = ''Custom NGINX http block configuration'',
    MigrationNote = ''HTTP snippets affect global behavior. Requires careful analysis and potential migration to Gateway-level policies or infrastructure changes.'',
    SourceURL = ''https://kubernetes.github.io/ingress-nginx/user-guide/nginx-configuration/annotations/#configuration-snippet''\<rparr>]"

text \<open>
  \<^verbatim>\<open>GetHighestRiskLevel\<close>. The loop keeps \<^verbatim>\<open>highestRisk\<close> and returns from inside
  the \<^verbatim>\<open>switch\<close> at the first HIGH_RISK rule; a rule whose level is neither HIGH_RISK
  nor MANUAL leaves \<^verbatim>\<open>highestRisk\<close> as it is.
\<close>

fun highestRiskLoop :: "RiskLevel \<Rightarrow> AnnotationRule list \<Rightarrow> RiskLevel" where
  "highestRiskLoop highestRisk [] = highestRisk"
| "highestRiskLoop highestRisk (rule # rules) =
     (if RiskLevel rule = RiskHigh then RiskHigh
      else if RiskLevel rule = RiskManual then highestRiskLoop RiskManual rules
      else highestRiskLoop highestRisk rules)"

definition GetHighestRiskLevel :: "AnnotationRule list \<Rightarrow> RiskLevel" where
  "GetHighestRiskLevel rules =
     (if length rules = 0 then RiskAuto else highestRiskLoop RiskAuto rules)"

definition lookupString :: "(string \<times> string) list \<Rightarrow> string \<Rightarrow> string" where
  "lookupString m key = (case map_of m key of Some v \<Rightarrow> v | None \<Rightarrow> [])"

definition HasPrefix :: "string \<Rightarrow> string \<Rightarrow> bool" where
  "HasPrefix s prefix = (take (length prefix) s = prefix)"

fun Contains :: "string \<Rightarrow> string \<Rightarrow> bool" where
  "Contains [] substr = (substr = [])"
| "Contains (c # s) substr = (HasPrefix (c # s) substr \<or> Contains s substr)"

subsection \<open>The string-match primitive\<close>

text \<open>
  \<^verbatim>\<open>regexp.MatchString(pattern, s)\<close> of the Go library reports whether \<open>s\<close> contains
  a match of the regular expression \<open>pattern\<close>; the match is not anchored. The model
  covers the patterns built from ordinary characters and the dot, which is every pattern
  of the rule table (\<open>rule_patterns_compile\<close> below): an ordinary character matches
  itself, a dot matches any character but a newline. A pattern with another
  metacharacter of the RE2 syntax is outside the model and yields \<^const>\<open>None\<close>.
  Strings are sequences of one-byte characters, as annotation keys are.
\<close>

datatype regexp_atom = Lit char | AnyCharNotNL

definition regexp_meta :: "char list" where
  "regexp_meta = [CHR 0x5C, CHR ''+'', CHR ''*'', CHR ''?'', CHR ''('', CHR '')'', CHR ''|'',
                  CHR ''['', CHR '']'', CHR ''{'', CHR ''}'', CHR ''^'', CHR ''$'']"

fun Compile :: "string \<Rightarrow> regexp_atom list option" where
  "Compile [] = Some []"
| "Compile (c # cs) =
     (if c \<in> set regexp_meta then None
      else case Compile cs of
             None \<Rightarrow> None
           | Some atoms \<Rightarrow> Some ((if c = CHR ''.'' then AnyCharNotNL else Lit c) # atoms))"

fun atom_matches :: "regexp_atom \<Rightarrow> char \<Rightarrow> bool" where
  "atom_matches (Lit d) c = (c = d)"
| "atom_matches AnyCharNotNL c = (c \<noteq> CHR 0x0A)"

fun match_here :: "regexp_atom list \<Rightarrow> string \<Rightarrow> bool" where
  "match_here [] s = True"
| "match_here (a # atoms) [] = False"
| "match_here (a # atoms) (c # s) = (atom_matches a c \<and> match_here atoms s)"

fun match_anywhere :: "regexp_atom list \<Rightarrow> string \<Rightarrow> bool" where
  "match_anywhere atoms [] = match_here atoms []"
| "match_anywhere atoms (c # s) = (match_here atoms (c # s) \<or> match_anywhere atoms s)"

definition MatchString :: "string \<Rightarrow> string \<Rightarrow> bool option" where
  "MatchString pattern s = map_option (\<lambda>atoms. match_anywhere atoms s) (Compile pattern)"

subsection \<open>Lookup, matching, unknown annotations\<close>

definition nginxPrefix :: string where
  "nginxPrefix = ''nginx.ingress.kubernetes.io/''"

text \<open>\<^verbatim>\<open>GetRuleByPattern\<close>: the first rule whose pattern equals the key.\<close>

fun ruleByPattern :: "AnnotationRule list \<Rightarrow> string \<Rightarrow> AnnotationRule option" where
  "ruleByPattern [] annotationKey = None"
| "ruleByPattern (rule # rules) annotationKey =
     (if Pattern rule = annotationKey then Some rule else ruleByPattern rules annotationKey)"

definition GetRuleByPattern :: "string \<Rightarrow> AnnotationRule option" where
  "GetRuleByPattern annotationKey = ruleByPattern GetAnnotationRules annotationKey"

text \<open>
  \<^verbatim>\<open>MatchAnnotations\<close>. The inner loop stops at the first rule whose pattern
  \<^verbatim>\<open>regexp.MatchString\<close> finds in the key (\<^verbatim>\<open>break\<close>); the error result is dropped
  by the source.
\<close>

fun firstMatchingRule :: "AnnotationRule list \<Rightarrow> string \<Rightarrow> AnnotationRule option" where
  "firstMatchingRule [] annotationKey = None"
| "firstMatchingRule (rule # rules) annotationKey =
     (if MatchString (Pattern rule) annotationKey = Some True then Some rule
      else firstMatchingRule rules annotationKey)"

definition MatchAnnotations :: "(string \<times> string) list \<Rightarrow> AnnotationRule list" where
  "MatchAnnotations annotations =
     fold (\<lambda>(annotationKey, _) matchedRules.
             case firstMatchingRule GetAnnotationRules annotationKey of
               Some rule \<Rightarrow> matchedRules @ [rule]
             | None \<Rightarrow> matchedRules)
          annotations []"

text \<open>\<^verbatim>\<open>GetUnknownNginxAnnotations\<close>, with its set of known patterns as a map to bool.\<close>

definition knownPatterns :: "(string \<times> bool) list" where
  "knownPatterns = fold (\<lambda>rule m. AList.update (Pattern rule) True m) GetAnnotationRules []"

definition GetUnknownNginxAnnotations :: "(string \<times> string) list \<Rightarrow> string list" where
  "GetUnknownNginxAnnotations annotations =
     fold (\<lambda>(annotationKey, _) unknown.
             if HasPrefix annotationKey nginxPrefix then
               (if \<not> (case map_of knownPatterns annotationKey of Some b \<Rightarrow> b | None \<Rightarrow> False)
                then unknown @ [annotationKey] else unknown)
             else unknown)
          annotations []"

section \<open>Per-resource analysis and summary (pkg/analyze, analyzer)\<close>

text \<open>\<^verbatim>\<open>%d\<close> of \<^verbatim>\<open>fmt.Sprintf\<close> for a length.\<close>

function decimal :: "nat \<Rightarrow> string" where
  "decimal n = (if n < 10 then [char_of (48 + n)] else decimal (n div 10) @ [char_of (48 + n mod 10)])"
  by pat_completeness auto
termination
  by (relation "measure id") auto

definition generateWarnings :: "IngressResource \<Rightarrow> AnnotationRule list \<Rightarrow> string list" where
  "generateWarnings resource matchedRules =
     (let warnings = fold (\<lambda>rule warnings.
                        if Contains (Pattern rule) ''snippet''
                        then warnings @ [''Contains '' @ Name rule @ '': requires manual review and reimplementation'']
                        else warnings) matchedRules [];
          unknown = GetUnknownNginxAnnotations (Annotations resource);
          warnings = (if length unknown > 0
                      then warnings @ [''Contains '' @ decimal (length unknown) @ '' unknown nginx annotations'']
                      else warnings)
      in case map_of (Annotations resource) ''kubernetes.io/ingress.class'' of
           Some class \<Rightarrow>
             if class = ''nginx'' \<and> ClassName resource = []
             then warnings @ [''Uses deprecated kubernetes.io/ingress.class annotation instead of spec.ingressClassName'']
             else warnings
         | None \<Rightarrow> warnings)"

definition analyzeIngress :: "IngressResource \<Rightarrow> IngressAnalysis" where
  "analyzeIngress resource =
     (let matchedRules = MatchAnnotations (Annotations resource);
          riskLevel = GetHighestRiskLevel matchedRules;
          unknownAnnotations = GetUnknownNginxAnnotations (Annotations resource);
          warnings = generateWarnings resource matchedRules
      in \<lparr>Resource = resource, MatchedRules = matchedRules, AnalysisRiskLevel = riskLevel,
          UnknownAnnotations = unknownAnnotations, Warnings = warnings\<rparr>)"

text \<open>
  \<^verbatim>\<open>generateSummary\<close>: the two \<^verbatim>\<open>switch\<close> statements of the loop body, the second on
  the entry of the namespace (the zero value when the namespace has none yet).
\<close>

definition countRisk :: "RiskLevel \<Rightarrow> AnalysisSummary \<Rightarrow> AnalysisSummary" where
  "countRisk level summary =
     (if level = RiskAuto then summary\<lparr>AutoCount := AutoCount summary + 1\<rparr>
      else if level = RiskManual then summary\<lparr>ManualCount := ManualCount summary + 1\<rparr>
      else if level = RiskHigh then summary\<lparr>HighRiskCount := HighRiskCount summary + 1\<rparr>
      else summary)"

definition countRiskNs :: "RiskLevel \<Rightarrow> NamespaceSummary \<Rightarrow> NamespaceSummary" where
  "countRiskNs level nsSummary =
     (if level = RiskAuto then nsSummary\<lparr>NsAutoCount := NsAutoCount nsSummary + 1\<rparr>
      else if level = RiskManual then nsSummary\<lparr>NsManualCount := NsManualCount nsSummary + 1\<rparr>
      else if level = RiskHigh then nsSummary\<lparr>NsHighRiskCount := NsHighRiskCount nsSummary + 1\<rparr>
      else nsSummary)"

definition summaryStep :: "IngressAnalysis \<Rightarrow> AnalysisSummary \<Rightarrow> AnalysisSummary" where
  "summaryStep analysis summary =
     (let summary = countRisk (AnalysisRiskLevel analysis) summary;
          ns = Namespace (Resource analysis);
          nsSummary = (case map_of (ByNamespace summary) ns of
                         Some s \<Rightarrow> s
                       | None \<Rightarrow> \<lparr>NsAutoCount = 0, NsManualCount = 0, NsHighRiskCount = 0\<rparr>);
          nsSummary = countRiskNs (AnalysisRiskLevel analysis) nsSummary
      in summary\<lparr>ByNamespace := AList.update ns nsSummary (ByNamespace summary)\<rparr>)"

definition generateSummary :: "IngressAnalysis list \<Rightarrow> AnalysisSummary" where
  "generateSummary analyses =
     fold summaryStep analyses
       \<lparr>TotalIngresses = int (length analyses), AutoCount = 0, ManualCount = 0,
        HighRiskCount = 0, ByNamespace = []\<rparr>"


section \<open>Annotation inventory (pkg/analyze, inventory)\<close>

record AnnotationUsage =
  Key :: string
  UniqueValues :: "string list"
  UsageCount :: int
  Namespaces :: "string list"
  ValueExamples :: "(string \<times> int) list"
  Risk :: RiskLevel
  UsageDescription :: string
  UsageMigrationNote :: string
  UsageSourceURL :: string

record InventorySummary =
  TotalUniqueAnnotations :: int
  NginxAnnotationsCount :: int
  UnknownAnnotationsCount :: int
  MostUsedAnnotation :: string
  MostComplexNamespace :: string

record AnnotationInventory =
  AllAnnotations :: "(string \<times> AnnotationUsage) list"
  NginxAnnotations :: "(string \<times> AnnotationUsage) list"
  InvUnknownAnnotations :: "(string \<times> AnnotationUsage) list"
  Summary :: InventorySummary

text \<open>
  The three maps of the source hold pointers to usage records. Every record is allocated
  by \<^verbatim>\<open>getOrCreateUsage\<close> for one key of one map and is stored nowhere else, so no
  record is shared between two entries; the model stores the records themselves, and a
  write through the pointer is a write to the entry (\<open>store\<close>).
\<close>

definition isSystemAnnotation :: "string \<Rightarrow> bool" where
  "isSystemAnnotation key =
     (let systemPrefixes =
            [''kubectl.kubernetes.io/'',
             ''deployment.kubernetes.io/'',
             ''control-plane.alpha.kubernetes.io/'',
             ''pv.kubernetes.io/'',
             ''volume.beta.kubernetes.io/'',
             ''alpha.kubernetes.io/'',
             ''beta.kubernetes.io/'',
             ''node.alpha.kubernetes.io/'',
             ''scheduler.alpha.kubernetes.io/'',
             ''autoscaling.alpha.kubernetes.io/'',
             ''controller.kubernetes.io/''];
          systemAnnotations =
            [''kubernetes.io/ingress.class'',
             ''field.cattle.io/publicEndpoints'',
             ''meta.helm.sh/release-name'',
             ''meta.helm.sh/release-namespace'']
      in if list_ex (\<lambda>prefix. HasPrefix key prefix) systemPrefixes then True
         else if list_ex (\<lambda>sysAnnotation. key = sysAnnotation) systemAnnotations then True
         else False)"

definition newUsage :: "string \<Rightarrow> AnnotationUsage" where
  "newUsage key =
     \<lparr>Key = key, UniqueValues = [], UsageCount = 0, Namespaces = [], ValueExamples = [],
      Risk = [], UsageDescription = [], UsageMigrationNote = [], UsageSourceURL = []\<rparr>"

definition getOrCreateUsage ::
  "(string \<times> AnnotationUsage) list \<Rightarrow> string \<Rightarrow> (string \<times> AnnotationUsage) list \<times> AnnotationUsage" where
  "getOrCreateUsage usageMap key =
     (case map_of usageMap key of
        Some usage \<Rightarrow> (usageMap, usage)
      | None \<Rightarrow> (AList.update key (newUsage key) usageMap, newUsage key))"

definition updateUsage :: "AnnotationUsage \<Rightarrow> string \<Rightarrow> string \<Rightarrow> AnnotationUsage" where
  "updateUsage usage val namespace =
     usage\<lparr>UsageCount := UsageCount usage + 1,
           UniqueValues := (if val \<in> set (UniqueValues usage) then UniqueValues usage
                            else UniqueValues usage @ [val]),
           Namespaces := (if namespace \<in> set (Namespaces usage) then Namespaces usage
                          else Namespaces usage @ [namespace]),
           ValueExamples := AList.update val
                              ((case map_of (ValueExamples usage) val of Some n \<Rightarrow> n | None \<Rightarrow> 0) + 1)
                              (ValueExamples usage)\<rparr>"

definition store ::
  "(string \<times> AnnotationUsage) list \<Rightarrow> string \<Rightarrow> AnnotationUsage \<Rightarrow> (string \<times> AnnotationUsage) list" where
  "store usageMap key usage = AList.update key usage usageMap"

definition attachRuleInfo :: "string \<Rightarrow> AnnotationUsage \<Rightarrow> AnnotationUsage" where
  "attachRuleInfo key nginxUsage =
     (case GetRuleByPattern key of
        Some rule \<Rightarrow>
          nginxUsage\<lparr>Risk := RiskLevel rule,
                     UsageDescription := Description rule,
                     UsageMigrationNote := MigrationNote rule,
                     UsageSourceURL := SourceURL rule\<rparr>
      | None \<Rightarrow>
          nginxUsage\<lparr>Risk := ''UNKNOWN'',
                     UsageDescription := ''Unknown nginx annotation - not in current knowledge base'',
                     UsageMigrationNote := ''This annotation is not documented in our migration rules. Please research Gateway API equivalent or file an issue.'',
                     UsageSourceURL := []\<rparr>)"

text \<open>The body of the loop over \<^verbatim>\<open>analysis.Resource.Annotations\<close>.\<close>

definition foldAnnotation :: "string \<Rightarrow> string \<times> string \<Rightarrow> AnnotationInventory \<Rightarrow> AnnotationInventory" where
  "foldAnnotation namespace kv inventory =
     (case kv of (key, val) \<Rightarrow>
        if isSystemAnnotation key then inventory
        else
          let (allMap, usage) = getOrCreateUsage (AllAnnotations inventory) key;
              inventory = inventory\<lparr>AllAnnotations := store allMap key (updateUsage usage val namespace)\<rparr>
          in if HasPrefix key nginxPrefix then
               let (nginxMap, nginxUsage) = getOrCreateUsage (NginxAnnotations inventory) key;
                   nginxUsage = updateUsage nginxUsage val namespace;
                   nginxUsage = attachRuleInfo key nginxUsage
               in inventory\<lparr>NginxAnnotations := store nginxMap key nginxUsage\<rparr>
             else inventory)"

text \<open>The body of the loop over \<^verbatim>\<open>analysis.UnknownAnnotations\<close>.\<close>

definition foldUnknown ::
  "string \<Rightarrow> (string \<times> string) list \<Rightarrow> string \<Rightarrow> AnnotationInventory \<Rightarrow> AnnotationInventory" where
  "foldUnknown namespace annotations unknown inventory =
     (let (unknownMap, usage) = getOrCreateUsage (InvUnknownAnnotations inventory) unknown;
          val = lookupString annotations unknown
      in inventory\<lparr>InvUnknownAnnotations := store unknownMap unknown (updateUsage usage val namespace)\<rparr>)"

definition foldAnalysis :: "IngressAnalysis \<Rightarrow> AnnotationInventory \<Rightarrow> AnnotationInventory" where
  "foldAnalysis analysis inventory =
     (let namespace = Namespace (Resource analysis);
          annotations = Annotations (Resource analysis);
          inventory = fold (foldAnnotation namespace) annotations inventory
      in fold (foldUnknown namespace annotations) (UnknownAnnotations analysis) inventory)"

text \<open>
  \<^verbatim>\<open>generateInventorySummary\<close> ranges over \<^verbatim>\<open>inventory.AllAnnotations\<close>, a map the
  builder has just filled. The order of that visit is the runtime's choice; it is the
  argument \<open>visit\<close>, the keys of the map in the order the loop meets them.
\<close>

definition mostUsedStep ::
  "(string \<times> AnnotationUsage) list \<Rightarrow> string \<Rightarrow> int \<times> InventorySummary \<Rightarrow> int \<times> InventorySummary" where
  "mostUsedStep allMap key st =
     (case st of (maxUsage, summary) \<Rightarrow>
        case map_of allMap key of
          Some usage \<Rightarrow>
            if UsageCount usage > maxUsage
            then (UsageCount usage, summary\<lparr>MostUsedAnnotation := key\<rparr>)
            else (maxUsage, summary)
        | None \<Rightarrow> (maxUsage, summary))"

definition generateInventorySummary :: "string list \<Rightarrow> AnnotationInventory \<Rightarrow> InventorySummary" where
  "generateInventorySummary visit inventory =
     (let summary = \<lparr>TotalUniqueAnnotations = int (length (AllAnnotations inventory)),
                     NginxAnnotationsCount = int (length (NginxAnnotations inventory)),
                     UnknownAnnotationsCount = int (length (InvUnknownAnnotations inventory)),
                     MostUsedAnnotation = [], MostComplexNamespace = []\<rparr>
      in snd (fold (mostUsedStep (AllAnnotations inventory)) visit (0, summary)))"

definition emptyInventory :: AnnotationInventory where
  "emptyInventory =
     \<lparr>AllAnnotations = [], NginxAnnotations = [], InvUnknownAnnotations = [],
      Summary = \<lparr>TotalUniqueAnnotations = 0, NginxAnnotationsCount = 0, UnknownAnnotationsCount = 0,
                 MostUsedAnnotation = [], MostComplexNamespace = []\<rparr>\<rparr>"

definition BuildAnnotationInventory :: "string list \<Rightarrow> IngressAnalysis list \<Rightarrow> AnnotationInventory" where
  "BuildAnnotationInventory visit analyses =
     (let inventory = fold foldAnalysis analyses emptyInventory
      in inventory\<lparr>Summary := generateInventorySummary visit inventory\<rparr>)"

subsection \<open>Criticality ranking\<close>

text \<open>
  \<^verbatim>\<open>sort.Slice\<close> of the Go library sorts in place by the given \<^verbatim>\<open>less\<close> and promises
  no stability. For a slice of at most twelve elements it runs insertion sort: each
  element in turn is swapped leftwards while it is \<^verbatim>\<open>less\<close> than its left neighbour.
  That is the model here (\<open>bubbleLeft\<close> works on the sorted part, nearest neighbour first);
  the theorems on ranking use of it only that the result is a rearrangement ordered by
  \<^verbatim>\<open>less\<close>, which holds of the library at every length.
\<close>

fun bubbleLeft :: "('a \<Rightarrow> 'a \<Rightarrow> bool) \<Rightarrow> 'a \<Rightarrow> 'a list \<Rightarrow> 'a list" where
  "bubbleLeft lessFn x [] = [x]"
| "bubbleLeft lessFn x (y # ys) = (if lessFn x y then y # bubbleLeft lessFn x ys else x # y # ys)"

definition sortSlice :: "('a \<Rightarrow> 'a \<Rightarrow> bool) \<Rightarrow> 'a list \<Rightarrow> 'a list" where
  "sortSlice lessFn xs = rev (fold (bubbleLeft lessFn) xs [])"

datatype panic = SliceBoundsOutOfRange

text \<open>
  \<^verbatim>\<open>GetMostCriticalAnnotations\<close> writes \<^verbatim>\<open>usage.Risk\<close> of every record of the unknown map
  through its pointer, so the call returns the inventory as it is afterwards together with
  its result; the second loop collects the entries of the unknown map as it leaves them.
  \<^verbatim>\<open>critical[:limit]\<close> panics for a negative \<^verbatim>\<open>limit\<close>.
\<close>

definition GetMostCriticalAnnotations ::
  "int \<Rightarrow> AnnotationInventory \<Rightarrow> AnnotationInventory \<times> (panic + AnnotationUsage list)" where
  "GetMostCriticalAnnotations limit inventory =
     (let critical = fold (\<lambda>(_, usage) critical.
                             if Risk usage = RiskHigh then critical @ [usage] else critical)
                          (NginxAnnotations inventory) [];
          (unknownMap, critical) =
             fold (\<lambda>(key, usage) (unknownMap, critical).
                     let usage = usage\<lparr>Risk := ''UNKNOWN''\<rparr>
                     in (unknownMap @ [(key, usage)], critical @ [usage]))
                  (InvUnknownAnnotations inventory) ([], critical);
          critical = sortSlice (\<lambda>a b. UsageCount a > UsageCount b) critical;
          inventory = inventory\<lparr>InvUnknownAnnotations := unknownMap\<rparr>
      in if int (length critical) > limit
         then (if limit < 0 then (inventory, Inl SliceBoundsOutOfRange)
               else (inventory, Inr (take (nat limit) critical)))
         else (inventory, Inr critical))"


section \<open>Namespace complexity (inventory report generator)\<close>

subsection \<open>float64 arithmetic\<close>

text \<open>
  \<^verbatim>\<open>analyzeNamespaceComplexity\<close> computes a percentage in \<^verbatim>\<open>float64\<close>. A finite
  \<^verbatim>\<open>float64\<close> is kept as the rational it stands for; a conversion from \<^verbatim>\<open>int\<close>, a
  division and a multiplication give the exact result rounded to the nearest value with a
  53-bit significand, ties to the even significand (IEEE 754 binary64, the only rounding
  Go has). \<open>binade x\<close> is the exponent \<open>e\<close> with \<open>2\<^sup>e \<le> x < 2\<^sup>e\<^sup>+\<^sup>1\<close>. The exponent range of
  the format is not modelled: the conversions of 64-bit integers, their quotients and the
  products with 100 lie between \<open>2\<^sup>-\<^sup>6\<^sup>3\<close> and \<open>2\<^sup>7\<^sup>0\<close>, far inside it; the code divides only by
  the conversion of a total that is not 0.
\<close>

definition binade :: "rat \<Rightarrow> int" where
  "binade x =
     (if 1 \<le> x then bitlen \<lfloor>x\<rfloor> - 1
      else let m = bitlen \<lfloor>1 / x\<rfloor> - 1
           in if x * 2 ^ nat m = 1 then - m else - m - 1)"

definition roundHalfEven :: "rat \<Rightarrow> int" where
  "roundHalfEven r =
     (let f = \<lfloor>r\<rfloor>; d = r - of_int f
      in if d < 1 / 2 then f
         else if 1 / 2 < d then f + 1
         else if even f then f else f + 1)"

definition round64 :: "rat \<Rightarrow> rat" where
  "round64 x =
     (if x = 0 then 0
      else let a = \<bar>x\<bar>; u = 2 powi (binade a - 52); r = of_int (roundHalfEven (a / u)) * u
           in if x < 0 then - r else r)"

definition float64 :: "int \<Rightarrow> rat" where
  "float64 n = round64 (of_int n)"

text \<open>\<^verbatim>\<open>float64(high) / float64(total) * 100\<close>, the division first.\<close>

definition highRiskPercent :: "int \<Rightarrow> int \<Rightarrow> rat" where
  "highRiskPercent high totalCount = round64 (round64 (float64 high / float64 totalCount) * 100)"

subsection \<open>The scorer\<close>

text \<open>
  \<^verbatim>\<open>namespaceAnnotations\<close> maps a namespace to a map from risk level to a sum of usage
  counts; a missing entry reads as 0. The sums are Go \<^verbatim>\<open>int\<close>s, kept as \<^typ>\<open>int\<close>: the
  statements below are about counts whose sums stay below \<open>2\<^sup>6\<^sup>3\<close>, where Go does not wrap.
  A namespace is written to the result at most once, so the order in which the second loop
  ranges over \<^verbatim>\<open>namespaceAnnotations\<close> does not show in the result.
\<close>

definition lookupCount :: "(RiskLevel \<times> int) list \<Rightarrow> RiskLevel \<Rightarrow> int" where
  "lookupCount riskCounts level = (case map_of riskCounts level of Some n \<Rightarrow> n | None \<Rightarrow> 0)"

definition addUsage ::
  "AnnotationUsage \<Rightarrow> string \<Rightarrow> (string \<times> (RiskLevel \<times> int) list) list \<Rightarrow> (string \<times> (RiskLevel \<times> int) list) list" where
  "addUsage usage namespace namespaceAnnotations =
     (let riskCounts = (case map_of namespaceAnnotations namespace of Some m \<Rightarrow> m | None \<Rightarrow> []);
          riskCounts = AList.update (Risk usage) (lookupCount riskCounts (Risk usage) + UsageCount usage) riskCounts
      in AList.update namespace riskCounts namespaceAnnotations)"

definition classify :: "(RiskLevel \<times> int) list \<Rightarrow> string option" where
  "classify riskCounts =
     (let totalCount = lookupCount riskCounts RiskAuto + lookupCount riskCounts RiskManual
                         + lookupCount riskCounts RiskHigh
      in if totalCount = 0 then None
         else let percent = highRiskPercent (lookupCount riskCounts RiskHigh) totalCount
              in if percent > 50 then Some ''HIGH complexity (many high-risk annotations)''
                 else if percent > 20 then Some ''MEDIUM complexity (some high-risk annotations)''
                 else Some ''LOW complexity (mostly auto-migratable)'')"

definition analyzeNamespaceComplexity :: "AnnotationInventory \<Rightarrow> (string \<times> string) list" where
  "analyzeNamespaceComplexity inventory =
     (let namespaceAnnotations =
            fold (\<lambda>(_, usage) namespaceAnnotations.
                    fold (addUsage usage) (Namespaces usage) namespaceAnnotations)
                 (NginxAnnotations inventory) []
      in fold (\<lambda>(namespace, riskCounts) namespaceComplexity.
                 case classify riskCounts of
                   None \<Rightarrow> namespaceComplexity
                 | Some label \<Rightarrow> AList.update namespace label namespaceComplexity)
              namespaceAnnotations [])"

section \<open>Notions for the statements\<close>

subsection \<open>Summary counts and risk levels\<close>

definition threeLevels :: "RiskLevel \<Rightarrow> bool" where
  "threeLevels level \<longleftrightarrow> level = RiskAuto \<or> level = RiskManual \<or> level = RiskHigh"

definition nsTotal :: "NamespaceSummary \<Rightarrow> int" where
  "nsTotal s = NsAutoCount s + NsManualCount s + NsHighRiskCount s"

definition nsTotalAt :: "AnalysisSummary \<Rightarrow> string \<Rightarrow> int" where
  "nsTotalAt summary ns = (case map_of (ByNamespace summary) ns of Some s \<Rightarrow> nsTotal s | None \<Rightarrow> 0)"

subsection \<open>The builder as a fold of events\<close>

text \<open>
  The builder seen per key: every visit of an annotation or of an unknown key is an event
  (key, value, namespace), and the record a map holds for a key is the fold of
  \<^const>\<open>updateUsage\<close> over the events of that key, in the order of the visits.
\<close>

definition usageOr :: "(string \<times> AnnotationUsage) list \<Rightarrow> string \<Rightarrow> AnnotationUsage" where
  "usageOr usageMap key = (case map_of usageMap key of Some usage \<Rightarrow> usage | None \<Rightarrow> newUsage key)"

definition applyEvent ::
  "(string \<Rightarrow> AnnotationUsage \<Rightarrow> AnnotationUsage) \<Rightarrow> string \<times> string \<times> string \<Rightarrow>
   (string \<times> AnnotationUsage) list \<Rightarrow> (string \<times> AnnotationUsage) list" where
  "applyEvent g e usageMap =
     (case e of (key, val, ns) \<Rightarrow>
        AList.update key (g key (updateUsage (usageOr usageMap key) val ns)) usageMap)"

definition inAll :: "string \<Rightarrow> bool" where
  "inAll key \<longleftrightarrow> \<not> isSystemAnnotation key"

definition inNginx :: "string \<Rightarrow> bool" where
  "inNginx key \<longleftrightarrow> \<not> isSystemAnnotation key \<and> HasPrefix key nginxPrefix"

definition annotationEvents :: "(string \<Rightarrow> bool) \<Rightarrow> IngressAnalysis \<Rightarrow> (string \<times> string \<times> string) list" where
  "annotationEvents keep a =
     map (\<lambda>(key, val). (key, val, Namespace (Resource a)))
         (filter (\<lambda>(key, val). keep key) (Annotations (Resource a)))"

definition unknownEvents :: "IngressAnalysis \<Rightarrow> (string \<times> string \<times> string) list" where
  "unknownEvents a =
     map (\<lambda>key. (key, lookupString (Annotations (Resource a)) key, Namespace (Resource a)))
         (UnknownAnnotations a)"

definition eventsOf :: "string \<Rightarrow> (string \<times> string \<times> string) list \<Rightarrow> (string \<times> string \<times> string) list" where
  "eventsOf key evs = filter (\<lambda>(k, val, ns). k = key) evs"

definition perKey ::
  "(string \<Rightarrow> AnnotationUsage \<Rightarrow> AnnotationUsage) \<Rightarrow> string \<Rightarrow> (string \<times> string \<times> string) list \<Rightarrow>
   AnnotationUsage \<Rightarrow> AnnotationUsage" where
  "perKey g key evs usage =
     fold (\<lambda>(k, val, ns) u. g key (updateUsage u val ns)) (eventsOf key evs) usage"

definition keepUsage :: "string \<Rightarrow> AnnotationUsage \<Rightarrow> AnnotationUsage" where
  "keepUsage key usage = usage"

definition keepsStats :: "(string \<Rightarrow> AnnotationUsage \<Rightarrow> AnnotationUsage) \<Rightarrow> bool" where
  "keepsStats g \<longleftrightarrow>
     (\<forall>key usage. Key (g key usage) = Key usage \<and> UsageCount (g key usage) = UsageCount usage \<and>
        Namespaces (g key usage) = Namespaces usage \<and> UniqueValues (g key usage) = UniqueValues usage \<and>
        ValueExamples (g key usage) = ValueExamples usage)"

definition exampleCount :: "AnnotationUsage \<Rightarrow> string \<Rightarrow> int" where
  "exampleCount usage val = (case map_of (ValueExamples usage) val of Some n \<Rightarrow> n | None \<Rightarrow> 0)"

subsection \<open>A small cluster for the concrete checks\<close>

text \<open>
  One ingress in namespace \<open>prod\<close> with a server snippet (a HIGH_RISK rule) and an nginx
  annotation that no rule knows; its analysis, and the inventory built from it when the
  summary loop meets the snippet first.
\<close>

definition exampleResource :: IngressResource where
  "exampleResource =
     \<lparr>ResourceName = ''web'', Namespace = ''prod'', ClassName = [],
      Annotations = [(''nginx.ingress.kubernetes.io/server-snippet'', ''x''),
                     (''nginx.ingress.kubernetes.io/custom-unknown'', ''on'')],
      Labels = [], Hosts = [], Paths = [], CreatedAt = 0\<rparr>"

definition exampleAnalysis :: IngressAnalysis where
  "exampleAnalysis =
     \<lparr>Resource = exampleResource,
      MatchedRules = [GetAnnotationRules ! 13],
      AnalysisRiskLevel = RiskHigh,
      UnknownAnnotations = [''nginx.ingress.kubernetes.io/custom-unknown''],
      Warnings = [''Contains Server Snippet: requires manual review and reimplementation'',
                  ''Contains 1 unknown nginx annotations'']\<rparr>"

definition exampleVisit :: "string list" where
  "exampleVisit = [''nginx.ingress.kubernetes.io/server-snippet'', ''nginx.ingress.kubernetes.io/custom-unknown'']"

definition exampleInventory :: AnnotationInventory where
  "exampleInventory =
   \<lparr>AllAnnotations =
    [(''nginx.ingress.kubernetes.io/server-snippet'',
      \<lparr>Key = ''nginx.ingress.kubernetes.io/server-snippet'',
         UniqueValues = [''x''], UsageCount = 1, Namespaces = [''prod''],
         ValueExamples = [(''x'', 1)], Risk = [], UsageDescription = [],
         UsageMigrationNote = [], UsageSourceURL = []\<rparr>),
     (''nginx.ingress.kubernetes.io/custom-unknown'',
      \<lparr>Key = ''nginx.ingress.kubernetes.io/custom-unknown'',
         UniqueValues = [''on''], UsageCount = 1, Namespaces = [''prod''],
         ValueExamples = [(''on'', 1)], Risk = [], UsageDescription = [],
         UsageMigrationNote = [], UsageSourceURL = []\<rparr>)],
    NginxAnnotations =
      [(''nginx.ingress.kubernetes.io/server-snippet'',
        \<lparr>Key = ''nginx.ingress.kubernetes.io/server-snippet'',
           UniqueValues = [''x''], UsageCount = 1, Namespaces = [''prod''],
           ValueExamples = [(''x'', 1)], Risk = ''HIGH_RISK'',
           UsageDescription = ''Custom NGINX server block configuration'',
           UsageMigrationNote =
             ''Server snippets contain custom NGINX configuration that has no Gateway API equivalent. Review the configuration and implement equivalent functionality using Gateway policies, service mesh, or consider staying with NGINX Inc commercial controller.'',
           UsageSourceURL =
             ''https://kubernetes.github.io/ingress-nginx/user-guide/nginx-configuration/annotations/#server-snippet''\<rparr>),
       (''nginx.ingress.kubernetes.io/custom-unknown'',
        \<lparr>Key = ''nginx.ingress.kubernetes.io/custom-unknown'',
           UniqueValues = [''on''], UsageCount = 1, Namespaces = [''prod''],
           ValueExamples = [(''on'', 1)], Risk = ''UNKNOWN'',
           UsageDescription =
             ''Unknown nginx annotation - not in current knowledge base'',
           UsageMigrationNote =
             ''This annotation is not documented in our migration rules. Please research Gateway API equivalent or file an issue.'',
           UsageSourceURL = []\<rparr>)],
    InvUnknownAnnotations =
      [(''nginx.ingress.kubernetes.io/custom-unknown'',
        \<lparr>Key = ''nginx.ingress.kubernetes.io/custom-unknown'',
           UniqueValues = [''on''], UsageCount = 1, Namespaces = [''prod''],
           ValueExamples = [(''on'', 1)], Risk = [], UsageDescription = [],
           UsageMigrationNote = [], UsageSourceURL = []\<rparr>)],
    Summary =
      \<lparr>TotalUniqueAnnotations = 2, NginxAnnotationsCount = 2,
         UnknownAnnotationsCount = 1,
         MostUsedAnnotation = ''nginx.ingress.kubernetes.io/server-snippet'',
         MostComplexNamespace = []\<rparr>\<rparr>"

subsection \<open>Notions for the ranking statements\<close>

text \<open>
  The candidates of the ranking, in the order the two loops of
  \<^verbatim>\<open>GetMostCriticalAnnotations\<close> collect them: the HIGH_RISK records of the nginx map, then
  the records of the unknown map as the second loop leaves them.
\<close>

definition markUnknown :: "string \<times> AnnotationUsage \<Rightarrow> string \<times> AnnotationUsage" where
  "markUnknown entry = (fst entry, (snd entry)\<lparr>Risk := ''UNKNOWN''\<rparr>)"

definition criticalCandidates :: "AnnotationInventory \<Rightarrow> AnnotationUsage list" where
  "criticalCandidates inventory =
     map snd (filter (\<lambda>entry. Risk (snd entry) = RiskHigh) (NginxAnnotations inventory))
     @ map (snd \<circ> markUnknown) (InvUnknownAnnotations inventory)"

text \<open>
  The order the specification words for the ranking: descending usage count, records of
  equal count in ascending order of their keys.
\<close>

definition rankedByUsageThenKey :: "AnnotationUsage list \<Rightarrow> bool" where
  "rankedByUsageThenKey ranking =
     sorted_wrt (\<lambda>a b. UsageCount a > UsageCount b \<or> (UsageCount a = UsageCount b \<and> Key a < Key b)) ranking"

definition exampleRanking :: "AnnotationUsage list" where
  "exampleRanking =
     [\<lparr>Key = ''nginx.ingress.kubernetes.io/server-snippet'',
       UniqueValues = [''x''], UsageCount = 1, Namespaces = [''prod''],
       ValueExamples = [(''x'', 1)], Risk = ''HIGH_RISK'',
       UsageDescription = ''Custom NGINX server block configuration'',
       UsageMigrationNote =
         ''Server snippets contain custom NGINX configuration that has no Gateway API equivalent. Review the configuration and implement equivalent functionality using Gateway policies, service mesh, or consider staying with NGINX Inc commercial controller.'',
       UsageSourceURL =
         ''https://kubernetes.github.io/ingress-nginx/user-guide/nginx-configuration/annotations/#server-snippet''\<rparr>,
      \<lparr>Key = ''nginx.ingress.kubernetes.io/custom-unknown'',
       UniqueValues = [''on''], UsageCount = 1, Namespaces = [''prod''],
       ValueExamples = [(''on'', 1)], Risk = ''UNKNOWN'', UsageDescription = [],
       UsageMigrationNote = [], UsageSourceURL = []\<rparr>]"

subsection \<open>Notions for comparing two builds\<close>

text \<open>
  Two analyses present the same resource when they agree on the namespace and hold the
  same annotation entries and the same unknown keys, in whatever order; two lists present
  the same resource set when one is a rearrangement of the other up to that. Two usage
  records agree when they have the same key, count and metadata, the same namespaces and
  values as sets, and the same value histogram; two maps agree when they have the same keys
  and agreeing records.
\<close>

definition sameAnalysis :: "IngressAnalysis \<Rightarrow> IngressAnalysis \<Rightarrow> bool" where
  "sameAnalysis a b \<longleftrightarrow>
     Namespace (Resource a) = Namespace (Resource b) \<and>
     mset (Annotations (Resource a)) = mset (Annotations (Resource b)) \<and>
     mset (UnknownAnnotations a) = mset (UnknownAnnotations b)"

definition samePresentation :: "IngressAnalysis list \<Rightarrow> IngressAnalysis list \<Rightarrow> bool" where
  "samePresentation analyses analyses' \<longleftrightarrow>
     (\<exists>cs. mset cs = mset analyses \<and> list_all2 sameAnalysis cs analyses')"

definition sameUsage :: "AnnotationUsage \<Rightarrow> AnnotationUsage \<Rightarrow> bool" where
  "sameUsage u u' \<longleftrightarrow>
     Key u = Key u' \<and> UsageCount u = UsageCount u' \<and>
     set (Namespaces u) = set (Namespaces u') \<and> set (UniqueValues u) = set (UniqueValues u') \<and>
     map_of (ValueExamples u) = map_of (ValueExamples u') \<and>
     Risk u = Risk u' \<and> UsageDescription u = UsageDescription u' \<and>
     UsageMigrationNote u = UsageMigrationNote u' \<and> UsageSourceURL u = UsageSourceURL u'"

definition sameUsageMap :: "(string \<times> AnnotationUsage) list \<Rightarrow> (string \<times> AnnotationUsage) list \<Rightarrow> bool" where
  "sameUsageMap m m' \<longleftrightarrow>
     fst ` set m = fst ` set m' \<and>
     (\<forall>key \<in> fst ` set m. sameUsage (usageOr m key) (usageOr m' key))"

definition infoStable :: "(string \<Rightarrow> AnnotationUsage \<Rightarrow> AnnotationUsage) \<Rightarrow> bool" where
  "infoStable g \<longleftrightarrow>
     (\<forall>key evs evs' usage. eventsOf key evs \<noteq> [] \<longrightarrow> eventsOf key evs' \<noteq> [] \<longrightarrow>
        Risk (perKey g key evs usage) = Risk (perKey g key evs' usage) \<and>
        UsageDescription (perKey g key evs usage) = UsageDescription (perKey g key evs' usage) \<and>
        UsageMigrationNote (perKey g key evs usage) = UsageMigrationNote (perKey g key evs' usage) \<and>
        UsageSourceURL (perKey g key evs usage) = UsageSourceURL (perKey g key evs' usage))"

text \<open>
  Among the keys that the summary loop visits, the first one whose usage count no other
  visited key exceeds; the empty string when the loop visits no key.
\<close>

definition firstTopKey :: "(string \<times> AnnotationUsage) list \<Rightarrow> string list \<Rightarrow> string" where
  "firstTopKey usageMap visit =
     (case find (\<lambda>key. \<forall>key'\<in>set visit. UsageCount (usageOr usageMap key') \<le> UsageCount (usageOr usageMap key))
                visit of
        Some key \<Rightarrow> key
      | None \<Rightarrow> [])"

text \<open>
  A second ingress, in namespace \<open>dev\<close>, with a server snippet only, and the analysis of
  the first ingress with its annotation map read in the other order.
\<close>

definition exampleResource2 :: IngressResource where
  "exampleResource2 =
     \<lparr>ResourceName = ''api'', Namespace = ''dev'', ClassName = ''nginx'',
      Annotations = [(''nginx.ingress.kubernetes.io/server-snippet'', ''y'')],
      Labels = [], Hosts = [], Paths = [], CreatedAt = 0\<rparr>"

definition exampleAnalysis2 :: IngressAnalysis where
  "exampleAnalysis2 =
     \<lparr>Resource = exampleResource2,
      MatchedRules = [GetAnnotationRules ! 13],
      AnalysisRiskLevel = RiskHigh,
      UnknownAnnotations = [],
      Warnings = [''Contains Server Snippet: requires manual review and reimplementation'']\<rparr>"

definition exampleAnalysisSwapped :: IngressAnalysis where
  "exampleAnalysisSwapped =
     exampleAnalysis\<lparr>Resource := exampleResource\<lparr>Annotations := rev (Annotations exampleResource)\<rparr>\<rparr>"

subsection \<open>Notions for the namespace scores\<close>

text \<open>The sum that \<^verbatim>\<open>namespaceAnnotations\<close> holds for a namespace and a risk level.\<close>

definition countAt :: "(string \<times> (RiskLevel \<times> int) list) list \<Rightarrow> string \<Rightarrow> RiskLevel \<Rightarrow> int" where
  "countAt namespaceAnnotations ns level =
     lookupCount (case map_of namespaceAnnotations ns of Some m \<Rightarrow> m | None \<Rightarrow> []) level"

text \<open>
  The sum of the scorer for a namespace and a risk level, as the first loop builds it: the
  usage count of every record of the nginx map with that risk level, once for every
  occurrence of the namespace in the record's namespaces.
\<close>

definition riskSum :: "AnnotationInventory \<Rightarrow> string \<Rightarrow> RiskLevel \<Rightarrow> int" where
  "riskSum inventory ns level =
     (\<Sum>entry\<leftarrow>NginxAnnotations inventory.
        \<Sum>n\<leftarrow>Namespaces (snd entry). if n = ns \<and> Risk (snd entry) = level then UsageCount (snd entry) else 0)"

definition totalSum :: "AnnotationInventory \<Rightarrow> string \<Rightarrow> int" where
  "totalSum inventory ns = riskSum inventory ns RiskAuto + riskSum inventory ns RiskManual + riskSum inventory ns RiskHigh"

text \<open>
  The size of the input of the builder: the number of annotation entries that the analysed
  resources hold, all annotation maps together. Every usage count of an inventory is a
  number of such entries.
\<close>

definition annotationEntries :: "IngressAnalysis list \<Rightarrow> int" where
  "annotationEntries analyses = (\<Sum>analysis\<leftarrow>analyses. int (length (Annotations (Resource analysis))))"

section \<open>Risk resolution: precedence\<close>

lemma risk_levels_distinct:
  "RiskAuto \<noteq> RiskManual" "RiskAuto \<noteq> RiskHigh" "RiskManual \<noteq> RiskHigh"
  by (simp_all add: RiskAuto_def RiskManual_def RiskHigh_def)

lemma highestRiskLoop_high:
  "\<exists>r\<in>set rules. RiskLevel r = RiskHigh \<Longrightarrow> highestRiskLoop acc rules = RiskHigh"
  by (induction rules arbitrary: acc) auto

lemma highestRiskLoop_manual:
  "\<forall>r\<in>set rules. RiskLevel r \<noteq> RiskHigh \<Longrightarrow> \<exists>r\<in>set rules. RiskLevel r = RiskManual
   \<Longrightarrow> highestRiskLoop acc rules = RiskManual"
proof (induction rules arbitrary: acc)
  case Nil
  then show ?case by simp
next
  case (Cons rule rules)
  have keep: "\<forall>r\<in>set rules. RiskLevel r \<noteq> RiskHigh \<Longrightarrow>
      \<forall>r\<in>set rules. RiskLevel r \<noteq> RiskManual \<Longrightarrow> highestRiskLoop a rules = a" for a
    by (induction rules arbitrary: a) auto
  from Cons show ?case
    by (cases "\<exists>r\<in>set rules. RiskLevel r = RiskManual") (auto simp: keep)
qed

lemma highestRiskLoop_none:
  "\<forall>r\<in>set rules. RiskLevel r \<noteq> RiskHigh \<Longrightarrow> \<forall>r\<in>set rules. RiskLevel r \<noteq> RiskManual
   \<Longrightarrow> highestRiskLoop acc rules = acc"
  by (induction rules arbitrary: acc) auto

text \<open>
  C1. For every list of matched rules, \<^const>\<open>GetHighestRiskLevel\<close> returns HIGH_RISK
  exactly when some rule of the list has level HIGH_RISK; it returns MANUAL exactly when
  some rule has level MANUAL and none has HIGH_RISK; it returns AUTO exactly when no rule
  has either level; the empty list resolves to AUTO.
\<close>

theorem GetHighestRiskLevel_precedence:
  "(GetHighestRiskLevel rules = RiskHigh \<longleftrightarrow> (\<exists>r\<in>set rules. RiskLevel r = RiskHigh)) \<and>
   (GetHighestRiskLevel rules = RiskManual \<longleftrightarrow>
      (\<exists>r\<in>set rules. RiskLevel r = RiskManual) \<and> \<not> (\<exists>r\<in>set rules. RiskLevel r = RiskHigh)) \<and>
   (GetHighestRiskLevel rules = RiskAuto \<longleftrightarrow>
      \<not> (\<exists>r\<in>set rules. RiskLevel r = RiskManual) \<and> \<not> (\<exists>r\<in>set rules. RiskLevel r = RiskHigh)) \<and>
   GetHighestRiskLevel [] = RiskAuto"
proof (cases "\<exists>r\<in>set rules. RiskLevel r = RiskHigh")
  case True
  then have "rules \<noteq> []" by auto
  with True have "GetHighestRiskLevel rules = RiskHigh"
    by (simp add: GetHighestRiskLevel_def highestRiskLoop_high)
  with True show ?thesis
    using risk_levels_distinct by (auto simp: GetHighestRiskLevel_def)
next
  case noHigh: False
  show ?thesis
  proof (cases "\<exists>r\<in>set rules. RiskLevel r = RiskManual")
    case True
    then have "rules \<noteq> []" by auto
    with True noHigh have "GetHighestRiskLevel rules = RiskManual"
      by (simp add: GetHighestRiskLevel_def highestRiskLoop_manual)
    with True noHigh show ?thesis
      using risk_levels_distinct by (auto simp: GetHighestRiskLevel_def)
  next
    case False
    with noHigh have "GetHighestRiskLevel rules = RiskAuto"
      by (simp add: GetHighestRiskLevel_def highestRiskLoop_none)
    with False noHigh show ?thesis
      using risk_levels_distinct by (auto simp: GetHighestRiskLevel_def)
  qed
qed

section \<open>Summary counts\<close>

lemma GetHighestRiskLevel_threeLevels: "threeLevels (GetHighestRiskLevel rules)"
proof -
  have "threeLevels acc \<Longrightarrow> threeLevels (highestRiskLoop acc rules)" for acc
    by (induction rules arbitrary: acc) (auto simp: threeLevels_def)
  then show ?thesis by (simp add: GetHighestRiskLevel_def threeLevels_def)
qed

lemma summaryStep_global:
  assumes "threeLevels (AnalysisRiskLevel a)"
  shows "AutoCount (summaryStep a s) + ManualCount (summaryStep a s) + HighRiskCount (summaryStep a s)
         = AutoCount s + ManualCount s + HighRiskCount s + 1"
    and "TotalIngresses (summaryStep a s) = TotalIngresses s"
  using assms risk_levels_distinct
  by (auto simp: summaryStep_def countRisk_def threeLevels_def Let_def)

lemma summaryStep_ns:
  assumes "threeLevels (AnalysisRiskLevel a)"
  shows "nsTotalAt (summaryStep a s) ns
         = nsTotalAt s ns + (if Namespace (Resource a) = ns then 1 else 0)"
  using assms risk_levels_distinct
  by (auto simp: summaryStep_def countRisk_def countRiskNs_def threeLevels_def Let_def nsTotalAt_def
        nsTotal_def update_conv' split: option.splits)

lemma ByNamespace_countRisk: "ByNamespace (countRisk level s) = ByNamespace s"
  by (simp add: countRisk_def)

lemma summaryStep_keys:
  "distinct (map fst (ByNamespace s)) \<Longrightarrow> distinct (map fst (ByNamespace (summaryStep a s)))"
  by (simp add: summaryStep_def Let_def ByNamespace_countRisk distinct_update)

lemma fold_summaryStep_global:
  "\<forall>a\<in>set analyses. threeLevels (AnalysisRiskLevel a) \<Longrightarrow>
   AutoCount (fold summaryStep analyses s) + ManualCount (fold summaryStep analyses s)
     + HighRiskCount (fold summaryStep analyses s)
   = AutoCount s + ManualCount s + HighRiskCount s + int (length analyses)"
  by (induction analyses arbitrary: s) (simp_all add: summaryStep_global)

lemma fold_summaryStep_total:
  "\<forall>a\<in>set analyses. threeLevels (AnalysisRiskLevel a) \<Longrightarrow>
   TotalIngresses (fold summaryStep analyses s) = TotalIngresses s"
  by (induction analyses arbitrary: s) (simp_all add: summaryStep_global)

lemma fold_summaryStep_ns:
  "\<forall>a\<in>set analyses. threeLevels (AnalysisRiskLevel a) \<Longrightarrow>
   nsTotalAt (fold summaryStep analyses s) ns
   = nsTotalAt s ns + int (length (filter (\<lambda>a. Namespace (Resource a) = ns) analyses))"
  by (induction analyses arbitrary: s) (simp_all add: summaryStep_ns)

lemma fold_summaryStep_distinct:
  "distinct (map fst (ByNamespace s)) \<Longrightarrow>
   distinct (map fst (ByNamespace (fold summaryStep analyses s)))"
  by (induction analyses arbitrary: s) (simp_all add: summaryStep_keys)

text \<open>
  C7. For the analyses that the per-resource pass \<^const>\<open>analyzeIngress\<close> produces from any
  list of resources, the summary of \<^const>\<open>generateSummary\<close> has
  \<open>AutoCount + ManualCount + HighRiskCount = TotalIngresses\<close>, the number of analyses, and
  every entry of \<open>ByNamespace\<close> (one per namespace) has counts that add up to the number
  of analysed resources of its namespace.
\<close>

theorem generateSummary_counts:
  "AutoCount (generateSummary (map analyzeIngress resources))
     + ManualCount (generateSummary (map analyzeIngress resources))
     + HighRiskCount (generateSummary (map analyzeIngress resources))
   = TotalIngresses (generateSummary (map analyzeIngress resources)) \<and>
   TotalIngresses (generateSummary (map analyzeIngress resources)) = int (length resources) \<and>
   distinct (map fst (ByNamespace (generateSummary (map analyzeIngress resources)))) \<and>
   (\<forall>(ns, nsSummary) \<in> set (ByNamespace (generateSummary (map analyzeIngress resources))).
      NsAutoCount nsSummary + NsManualCount nsSummary + NsHighRiskCount nsSummary
      = int (length (filter (\<lambda>resource. Namespace resource = ns) resources)))"
proof -
  let ?as = "map analyzeIngress resources"
  let ?s0 = "\<lparr>TotalIngresses = int (length ?as), AutoCount = 0, ManualCount = 0,
        HighRiskCount = 0, ByNamespace = []\<rparr>"
  have levels: "\<forall>a\<in>set ?as. threeLevels (AnalysisRiskLevel a)"
    by (auto simp: analyzeIngress_def Let_def GetHighestRiskLevel_threeLevels)
  have gs: "generateSummary ?as = fold summaryStep ?as ?s0"
    by (simp add: generateSummary_def)
  have 1: "AutoCount (generateSummary ?as) + ManualCount (generateSummary ?as)
     + HighRiskCount (generateSummary ?as) = int (length resources)"
    unfolding gs using fold_summaryStep_global[OF levels, of ?s0] by simp
  have 2: "TotalIngresses (generateSummary ?as) = int (length resources)"
    unfolding gs using fold_summaryStep_total[OF levels, of ?s0] by simp
  have 3: "distinct (map fst (ByNamespace (generateSummary ?as)))"
    unfolding gs using fold_summaryStep_distinct[of ?s0 ?as] by simp
  have 4: "nsTotal nsSummary = int (length (filter (\<lambda>resource. Namespace resource = ns) resources))"
    if "(ns, nsSummary) \<in> set (ByNamespace (generateSummary ?as))" for ns nsSummary
  proof -
    from that 3 have "map_of (ByNamespace (generateSummary ?as)) ns = Some nsSummary" by simp
    then have "nsTotalAt (generateSummary ?as) ns = nsTotal nsSummary"
      by (simp add: nsTotalAt_def)
    moreover have "nsTotalAt (generateSummary ?as) ns
        = int (length (filter (\<lambda>a. Namespace (Resource a) = ns) ?as))"
      unfolding gs using fold_summaryStep_ns[OF levels, of ?s0 ns] by (simp add: nsTotalAt_def)
    moreover have "filter (\<lambda>a. Namespace (Resource a) = ns) ?as
        = map analyzeIngress (filter (\<lambda>resource. Namespace resource = ns) resources)"
      by (simp add: filter_map comp_def analyzeIngress_def Let_def)
    ultimately show ?thesis by simp
  qed
  from 1 2 3 4 show ?thesis by (auto simp: nsTotal_def)
qed

theorem generateSummary_counts_witness:
  "ByNamespace (generateSummary (map analyzeIngress
      [\<lparr>ResourceName = ''web'', Namespace = ''prod'', ClassName = [],
        Annotations = [], Labels = [], Hosts = [], Paths = [], CreatedAt = 0\<rparr>]))
   = [(''prod'', \<lparr>NsAutoCount = 1, NsManualCount = 0, NsHighRiskCount = 0\<rparr>)] \<and>
   (1::int) + 0 + 0 = int (length (filter (\<lambda>resource. Namespace resource = ''prod'')
      [\<lparr>ResourceName = ''web'', Namespace = ''prod'', ClassName = [],
        Annotations = [], Labels = [], Hosts = [], Paths = [], CreatedAt = 0\<rparr>]))"
  using generateSummary_counts [of "[\<lparr>ResourceName = ''web'', Namespace = ''prod'', ClassName = [],
        Annotations = [], Labels = [], Hosts = [], Paths = [], CreatedAt = 0\<rparr>]"]
  by (simp add: generateSummary_def analyzeIngress_def MatchAnnotations_def GetHighestRiskLevel_def
      GetUnknownNginxAnnotations_def generateWarnings_def summaryStep_def countRisk_def countRiskNs_def
      RiskAuto_def RiskManual_def RiskHigh_def Let_def)

section \<open>Rule lookup and the unknown detector\<close>

lemma HasPrefix_append: "HasPrefix s prefix \<longleftrightarrow> (\<exists>rest. s = prefix @ rest)"
  unfolding HasPrefix_def
  by (metis append_eq_conv_conj append_take_drop_id)

lemma nginx_not_system:
  assumes "HasPrefix key nginxPrefix"
  shows "\<not> isSystemAnnotation key"
proof -
  from assms obtain rest where key: "key = nginxPrefix @ rest"
    by (auto simp: HasPrefix_append)
  show ?thesis
    by (simp add: key isSystemAnnotation_def nginxPrefix_def HasPrefix_def)
qed

lemma ruleByPattern_None: "ruleByPattern rules key = None \<longleftrightarrow> key \<notin> Pattern ` set rules"
  by (induction rules) auto

lemma ruleByPattern_Some: "ruleByPattern rules key = Some rule \<Longrightarrow> rule \<in> set rules \<and> Pattern rule = key"
  by (induction rules) (auto split: if_splits)

lemma map_of_fold_patterns:
  "map_of (fold (\<lambda>rule m. AList.update (Pattern rule) True m) rules m0) key
   = (if key \<in> Pattern ` set rules then Some True else map_of m0 key)"
  by (induction rules arbitrary: m0) (auto simp: update_conv')

lemma knownPatterns_lookup:
  "(case map_of knownPatterns key of Some b \<Rightarrow> b | None \<Rightarrow> False) \<longleftrightarrow> GetRuleByPattern key \<noteq> None"
  by (simp add: knownPatterns_def map_of_fold_patterns GetRuleByPattern_def ruleByPattern_None)

lemma GetUnknownNginxAnnotations_filter:
  "GetUnknownNginxAnnotations annotations
   = map fst (filter (\<lambda>(key, val). HasPrefix key nginxPrefix \<and> GetRuleByPattern key = None) annotations)"
proof -
  have "fold (\<lambda>(annotationKey, _) unknown.
             if HasPrefix annotationKey nginxPrefix then
               (if \<not> (case map_of knownPatterns annotationKey of Some b \<Rightarrow> b | None \<Rightarrow> False)
                then unknown @ [annotationKey] else unknown)
             else unknown) annotations acc
      = acc @ map fst (filter (\<lambda>(key, val). HasPrefix key nginxPrefix \<and> GetRuleByPattern key = None) annotations)"
    for acc
    by (induction annotations arbitrary: acc) (simp_all add: knownPatterns_lookup case_prod_unfold)
  from this [of "[]"] show ?thesis by (simp add: GetUnknownNginxAnnotations_def)
qed

section \<open>The inventory builder, key by key\<close>

lemma store_getOrCreateUsage:
  "store (fst (getOrCreateUsage usageMap key)) key usage = AList.update key usage usageMap"
  by (simp add: getOrCreateUsage_def store_def split: option.splits)

lemma snd_getOrCreateUsage: "snd (getOrCreateUsage usageMap key) = usageOr usageMap key"
  by (simp add: getOrCreateUsage_def usageOr_def split: option.splits)

lemma foldAnnotation_All:
  "AllAnnotations (foldAnnotation ns (key, val) inventory)
   = (if inAll key then applyEvent keepUsage (key, val, ns) (AllAnnotations inventory)
      else AllAnnotations inventory)"
  by (simp add: foldAnnotation_def inAll_def applyEvent_def keepUsage_def Let_def case_prod_beta
      store_getOrCreateUsage snd_getOrCreateUsage)

lemma foldAnnotation_Nginx:
  "NginxAnnotations (foldAnnotation ns (key, val) inventory)
   = (if inNginx key then applyEvent attachRuleInfo (key, val, ns) (NginxAnnotations inventory)
      else NginxAnnotations inventory)"
  by (simp add: foldAnnotation_def inNginx_def applyEvent_def Let_def case_prod_beta
      store_getOrCreateUsage snd_getOrCreateUsage)

lemma foldAnnotation_Unknown:
  "InvUnknownAnnotations (foldAnnotation ns kv inventory) = InvUnknownAnnotations inventory"
  by (simp add: foldAnnotation_def Let_def case_prod_beta)

lemma foldAnnotation_Summary:
  "Summary (foldAnnotation ns kv inventory) = Summary inventory"
  by (simp add: foldAnnotation_def Let_def case_prod_beta)

lemma foldUnknown_proj:
  "AllAnnotations (foldUnknown ns anns key inventory) = AllAnnotations inventory"
  "NginxAnnotations (foldUnknown ns anns key inventory) = NginxAnnotations inventory"
  "Summary (foldUnknown ns anns key inventory) = Summary inventory"
  "InvUnknownAnnotations (foldUnknown ns anns key inventory)
   = applyEvent keepUsage (key, lookupString anns key, ns) (InvUnknownAnnotations inventory)"
  by (simp_all add: foldUnknown_def Let_def case_prod_beta applyEvent_def keepUsage_def
      store_getOrCreateUsage snd_getOrCreateUsage)

lemma fold_foldAnnotation_All:
  "AllAnnotations (fold (foldAnnotation ns) anns inventory)
   = fold (applyEvent keepUsage)
       (map (\<lambda>(key, val). (key, val, ns)) (filter (\<lambda>(key, val). inAll key) anns))
       (AllAnnotations inventory)"
  by (induction anns arbitrary: inventory) (auto simp: foldAnnotation_All)

lemma fold_foldAnnotation_Nginx:
  "NginxAnnotations (fold (foldAnnotation ns) anns inventory)
   = fold (applyEvent attachRuleInfo)
       (map (\<lambda>(key, val). (key, val, ns)) (filter (\<lambda>(key, val). inNginx key) anns))
       (NginxAnnotations inventory)"
  by (induction anns arbitrary: inventory) (auto simp: foldAnnotation_Nginx)

lemma fold_foldAnnotation_Unknown:
  "InvUnknownAnnotations (fold (foldAnnotation ns) anns inventory) = InvUnknownAnnotations inventory"
  by (induction anns arbitrary: inventory) (auto simp: foldAnnotation_Unknown)

lemma fold_foldUnknown_proj:
  "AllAnnotations (fold (foldUnknown ns anns) keys inventory) = AllAnnotations inventory"
  "NginxAnnotations (fold (foldUnknown ns anns) keys inventory) = NginxAnnotations inventory"
  "InvUnknownAnnotations (fold (foldUnknown ns anns) keys inventory)
   = fold (applyEvent keepUsage) (map (\<lambda>key. (key, lookupString anns key, ns)) keys)
       (InvUnknownAnnotations inventory)"
  by (induction keys arbitrary: inventory) (simp_all add: foldUnknown_proj)

lemma foldAnalysis_proj:
  "AllAnnotations (foldAnalysis a inventory)
   = fold (applyEvent keepUsage) (annotationEvents inAll a) (AllAnnotations inventory)"
  "NginxAnnotations (foldAnalysis a inventory)
   = fold (applyEvent attachRuleInfo) (annotationEvents inNginx a) (NginxAnnotations inventory)"
  "InvUnknownAnnotations (foldAnalysis a inventory)
   = fold (applyEvent keepUsage) (unknownEvents a) (InvUnknownAnnotations inventory)"
  by (simp_all add: foldAnalysis_def Let_def fold_foldUnknown_proj fold_foldAnnotation_All
      fold_foldAnnotation_Nginx fold_foldAnnotation_Unknown annotationEvents_def unknownEvents_def)

lemma fold_foldAnalysis_proj:
  "AllAnnotations (fold foldAnalysis analyses inventory)
   = fold (applyEvent keepUsage) (concat (map (annotationEvents inAll) analyses)) (AllAnnotations inventory)"
  "NginxAnnotations (fold foldAnalysis analyses inventory)
   = fold (applyEvent attachRuleInfo) (concat (map (annotationEvents inNginx) analyses))
       (NginxAnnotations inventory)"
  "InvUnknownAnnotations (fold foldAnalysis analyses inventory)
   = fold (applyEvent keepUsage) (concat (map unknownEvents analyses)) (InvUnknownAnnotations inventory)"
  by (induction analyses arbitrary: inventory) (simp_all add: foldAnalysis_proj)

lemma Build_maps:
  "AllAnnotations (BuildAnnotationInventory visit analyses)
   = fold (applyEvent keepUsage) (concat (map (annotationEvents inAll) analyses)) []"
  "NginxAnnotations (BuildAnnotationInventory visit analyses)
   = fold (applyEvent attachRuleInfo) (concat (map (annotationEvents inNginx) analyses)) []"
  "InvUnknownAnnotations (BuildAnnotationInventory visit analyses)
   = fold (applyEvent keepUsage) (concat (map unknownEvents analyses)) []"
  by (simp_all add: BuildAnnotationInventory_def Let_def fold_foldAnalysis_proj emptyInventory_def)

lemma usageOr_applyEvent:
  "usageOr (applyEvent g (k, val, ns) m) key
   = (if k = key then g key (updateUsage (usageOr m key) val ns) else usageOr m key)"
  by (auto simp: applyEvent_def usageOr_def update_conv')

lemma usageOr_fold_applyEvent:
  "usageOr (fold (applyEvent g) evs m) key = perKey g key evs (usageOr m key)"
proof (induction evs arbitrary: m)
  case Nil
  then show ?case by (simp add: perKey_def eventsOf_def)
next
  case (Cons e evs)
  obtain k val ns where e: "e = (k, val, ns)" by (cases e)
  show ?case
    using Cons.IH [of "applyEvent g e m"]
    by (simp add: e usageOr_applyEvent perKey_def eventsOf_def)
qed

lemma keys_fold_applyEvent:
  "fst ` set (fold (applyEvent g) evs m) = fst ` set m \<union> fst ` set evs"
proof (induction evs arbitrary: m)
  case Nil
  then show ?case by simp
next
  case (Cons e evs)
  obtain k val ns where e: "e = (k, val, ns)" by (cases e)
  have "fst ` set (applyEvent g e m) = insert k (fst ` set m)"
    by (simp add: e applyEvent_def dom_update)
  with Cons.IH [of "applyEvent g e m"] show ?case by (auto simp: e)
qed

lemma distinct_fold_applyEvent:
  "distinct (map fst m) \<Longrightarrow> distinct (map fst (fold (applyEvent g) evs m))"
proof (induction evs arbitrary: m)
  case Nil
  then show ?case by simp
next
  case (Cons e evs)
  obtain k val ns where e: "e = (k, val, ns)" by (cases e)
  have "distinct (map fst (applyEvent g e m))"
    using Cons.prems by (simp add: e applyEvent_def distinct_update)
  then show ?case using Cons.IH by simp
qed

lemma entry_fold_applyEvent:
  assumes "(key, usage) \<in> set (fold (applyEvent g) evs [])"
  shows "usage = perKey g key evs (newUsage key)" and "key \<in> fst ` set evs"
proof -
  have d: "distinct (map fst (fold (applyEvent g) evs []))"
    by (rule distinct_fold_applyEvent) simp
  with assms have "map_of (fold (applyEvent g) evs []) key = Some usage" by simp
  then have "usageOr (fold (applyEvent g) evs []) key = usage" by (simp add: usageOr_def)
  moreover have "usageOr [] key = newUsage key" by (simp add: usageOr_def)
  ultimately show "usage = perKey g key evs (newUsage key)"
    using usageOr_fold_applyEvent [of g evs "[]" key] by simp
  from assms have "key \<in> fst ` set (fold (applyEvent g) evs [])" by force
  then show "key \<in> fst ` set evs" by (simp add: keys_fold_applyEvent)
qed


lemma keepsStats_keepUsage: "keepsStats keepUsage"
  by (simp add: keepsStats_def keepUsage_def)

lemma keepsStats_attachRuleInfo: "keepsStats attachRuleInfo"
  by (simp add: keepsStats_def attachRuleInfo_def split: option.splits)

lemma perKey_Nil: "perKey g key [] usage = usage"
  by (simp add: perKey_def eventsOf_def)

lemma perKey_Cons:
  "perKey g key ((k, val, ns) # evs) usage
   = (if k = key then perKey g key evs (g key (updateUsage usage val ns)) else perKey g key evs usage)"
  by (simp add: perKey_def eventsOf_def)

lemma eventsOf_Cons:
  "eventsOf key ((k, val, ns) # evs) = (if k = key then (k, val, ns) # eventsOf key evs else eventsOf key evs)"
  by (simp add: eventsOf_def)

lemma step_stats:
  assumes "keepsStats g"
  shows "Key (g key (updateUsage usage val ns)) = Key usage"
    and "UsageCount (g key (updateUsage usage val ns)) = UsageCount usage + 1"
    and "set (Namespaces (g key (updateUsage usage val ns))) = insert ns (set (Namespaces usage))"
    and "distinct (Namespaces usage) \<Longrightarrow> distinct (Namespaces (g key (updateUsage usage val ns)))"
    and "set (UniqueValues (g key (updateUsage usage val ns))) = insert val (set (UniqueValues usage))"
    and "distinct (UniqueValues usage) \<Longrightarrow> distinct (UniqueValues (g key (updateUsage usage val ns)))"
    and "fst ` set (ValueExamples (g key (updateUsage usage val ns))) = insert val (fst ` set (ValueExamples usage))"
    and "distinct (map fst (ValueExamples usage)) \<Longrightarrow>
         distinct (map fst (ValueExamples (g key (updateUsage usage val ns))))"
    and "exampleCount (g key (updateUsage usage val ns)) v = exampleCount usage v + (if val = v then 1 else 0)"
  using assms
  by (auto simp: keepsStats_def updateUsage_def dom_update distinct_update exampleCount_def update_conv')

lemma perKey_fold:
  "perKey g key evs usage
   = fold (\<lambda>e u. g key (updateUsage u (fst (snd e)) (snd (snd e)))) (eventsOf key evs) usage"
  by (simp add: perKey_def case_prod_unfold)

lemma fold_step_Key:
  "keepsStats g \<Longrightarrow>
   Key (fold (\<lambda>e u. g key (updateUsage u (fst (snd e)) (snd (snd e)))) es usage) = Key usage"
  by (induction es arbitrary: usage) (simp_all add: step_stats)

lemma fold_step_UsageCount:
  "keepsStats g \<Longrightarrow>
   UsageCount (fold (\<lambda>e u. g key (updateUsage u (fst (snd e)) (snd (snd e)))) es usage)
   = UsageCount usage + int (length es)"
  by (induction es arbitrary: usage) (simp_all add: step_stats)

lemma fold_step_Namespaces:
  "keepsStats g \<Longrightarrow>
   set (Namespaces (fold (\<lambda>e u. g key (updateUsage u (fst (snd e)) (snd (snd e)))) es usage))
   = set (Namespaces usage) \<union> (\<lambda>e. snd (snd e)) ` set es"
  by (induction es arbitrary: usage) (simp_all add: step_stats)

lemma fold_step_Namespaces_distinct:
  "keepsStats g \<Longrightarrow> distinct (Namespaces usage) \<Longrightarrow>
   distinct (Namespaces (fold (\<lambda>e u. g key (updateUsage u (fst (snd e)) (snd (snd e)))) es usage))"
  by (induction es arbitrary: usage) (simp_all add: step_stats)

lemma fold_step_UniqueValues:
  "keepsStats g \<Longrightarrow>
   set (UniqueValues (fold (\<lambda>e u. g key (updateUsage u (fst (snd e)) (snd (snd e)))) es usage))
   = set (UniqueValues usage) \<union> (\<lambda>e. fst (snd e)) ` set es"
  by (induction es arbitrary: usage) (simp_all add: step_stats)

lemma fold_step_UniqueValues_distinct:
  "keepsStats g \<Longrightarrow> distinct (UniqueValues usage) \<Longrightarrow>
   distinct (UniqueValues (fold (\<lambda>e u. g key (updateUsage u (fst (snd e)) (snd (snd e)))) es usage))"
  by (induction es arbitrary: usage) (simp_all add: step_stats)

lemma fold_step_examples_keys:
  "keepsStats g \<Longrightarrow>
   fst ` set (ValueExamples (fold (\<lambda>e u. g key (updateUsage u (fst (snd e)) (snd (snd e)))) es usage))
   = fst ` set (ValueExamples usage) \<union> (\<lambda>e. fst (snd e)) ` set es"
  by (induction es arbitrary: usage) (simp_all add: step_stats)

lemma fold_step_examples_distinct:
  "keepsStats g \<Longrightarrow> distinct (map fst (ValueExamples usage)) \<Longrightarrow>
   distinct (map fst (ValueExamples (fold (\<lambda>e u. g key (updateUsage u (fst (snd e)) (snd (snd e)))) es usage)))"
  by (induction es arbitrary: usage) (simp_all add: step_stats)

lemma fold_step_exampleCount:
  "keepsStats g \<Longrightarrow>
   exampleCount (fold (\<lambda>e u. g key (updateUsage u (fst (snd e)) (snd (snd e)))) es usage) v
   = exampleCount usage v + int (length (filter (\<lambda>e. fst (snd e) = v) es))"
  by (induction es arbitrary: usage) (simp_all add: step_stats)

lemma perKey_stats:
  assumes "keepsStats g"
  shows "Key (perKey g key evs usage) = Key usage"
    and "UsageCount (perKey g key evs usage) = UsageCount usage + int (length (eventsOf key evs))"
    and "set (Namespaces (perKey g key evs usage))
         = set (Namespaces usage) \<union> (\<lambda>e. snd (snd e)) ` set (eventsOf key evs)"
    and "distinct (Namespaces usage) \<Longrightarrow> distinct (Namespaces (perKey g key evs usage))"
    and "set (UniqueValues (perKey g key evs usage))
         = set (UniqueValues usage) \<union> (\<lambda>e. fst (snd e)) ` set (eventsOf key evs)"
    and "distinct (UniqueValues usage) \<Longrightarrow> distinct (UniqueValues (perKey g key evs usage))"
    and "fst ` set (ValueExamples (perKey g key evs usage))
         = fst ` set (ValueExamples usage) \<union> (\<lambda>e. fst (snd e)) ` set (eventsOf key evs)"
    and "distinct (map fst (ValueExamples usage)) \<Longrightarrow>
         distinct (map fst (ValueExamples (perKey g key evs usage)))"
    and "exampleCount (perKey g key evs usage) v
         = exampleCount usage v + int (length (filter (\<lambda>e. fst (snd e) = v) (eventsOf key evs)))"
  unfolding perKey_fold
  using assms
  by (simp_all add: fold_step_Key fold_step_UsageCount fold_step_Namespaces fold_step_Namespaces_distinct
      fold_step_UniqueValues fold_step_UniqueValues_distinct fold_step_examples_keys
      fold_step_examples_distinct fold_step_exampleCount)

lemma perKey_keepUsage_info:
  "Risk (perKey keepUsage key evs usage) = Risk usage"
  "UsageDescription (perKey keepUsage key evs usage) = UsageDescription usage"
  "UsageMigrationNote (perKey keepUsage key evs usage) = UsageMigrationNote usage"
  "UsageSourceURL (perKey keepUsage key evs usage) = UsageSourceURL usage"
  by (induction evs arbitrary: usage)
     (auto simp: perKey_Nil perKey_Cons keepUsage_def updateUsage_def)

lemma perKey_attachRuleInfo_info:
  assumes "eventsOf key evs \<noteq> []"
  shows "Risk (perKey attachRuleInfo key evs usage) = Risk (attachRuleInfo key usage)"
    and "UsageDescription (perKey attachRuleInfo key evs usage) = UsageDescription (attachRuleInfo key usage)"
    and "UsageMigrationNote (perKey attachRuleInfo key evs usage) = UsageMigrationNote (attachRuleInfo key usage)"
    and "UsageSourceURL (perKey attachRuleInfo key evs usage) = UsageSourceURL (attachRuleInfo key usage)"
proof -
  have info: "Risk (attachRuleInfo key u) = Risk (attachRuleInfo key u') \<and>
      UsageDescription (attachRuleInfo key u) = UsageDescription (attachRuleInfo key u') \<and>
      UsageMigrationNote (attachRuleInfo key u) = UsageMigrationNote (attachRuleInfo key u') \<and>
      UsageSourceURL (attachRuleInfo key u) = UsageSourceURL (attachRuleInfo key u')" for u u'
    by (simp add: attachRuleInfo_def split: option.splits)
  have fixed: "Risk u = Risk (attachRuleInfo key usage) \<and>
      UsageDescription u = UsageDescription (attachRuleInfo key usage) \<and>
      UsageMigrationNote u = UsageMigrationNote (attachRuleInfo key usage) \<and>
      UsageSourceURL u = UsageSourceURL (attachRuleInfo key usage) \<Longrightarrow>
      Risk (perKey attachRuleInfo key es u) = Risk (attachRuleInfo key usage) \<and>
      UsageDescription (perKey attachRuleInfo key es u) = UsageDescription (attachRuleInfo key usage) \<and>
      UsageMigrationNote (perKey attachRuleInfo key es u) = UsageMigrationNote (attachRuleInfo key usage) \<and>
      UsageSourceURL (perKey attachRuleInfo key es u) = UsageSourceURL (attachRuleInfo key usage)" for es u
  proof (induction es arbitrary: u)
    case Nil
    then show ?case by (simp add: perKey_Nil)
  next
    case (Cons e es)
    obtain k val ns where e: "e = (k, val, ns)" by (cases e)
    show ?case
    proof (cases "k = key")
      case True
      then show ?thesis
        using Cons.IH [of "attachRuleInfo key (updateUsage u val ns)"] info [of "updateUsage u val ns" usage]
        by (simp add: e perKey_Cons)
    next
      case False
      then show ?thesis using Cons by (simp add: e perKey_Cons)
    qed
  qed
  have first: "eventsOf key es \<noteq> [] \<Longrightarrow>
      Risk (perKey attachRuleInfo key es u) = Risk (attachRuleInfo key usage) \<and>
      UsageDescription (perKey attachRuleInfo key es u) = UsageDescription (attachRuleInfo key usage) \<and>
      UsageMigrationNote (perKey attachRuleInfo key es u) = UsageMigrationNote (attachRuleInfo key usage) \<and>
      UsageSourceURL (perKey attachRuleInfo key es u) = UsageSourceURL (attachRuleInfo key usage)" for es u
  proof (induction es arbitrary: u)
    case Nil
    then show ?case by (simp add: eventsOf_def)
  next
    case (Cons e es)
    obtain k val ns where e: "e = (k, val, ns)" by (cases e)
    show ?case
    proof (cases "k = key")
      case True
      then show ?thesis
        using fixed [of "attachRuleInfo key (updateUsage u val ns)" es] info [of "updateUsage u val ns" usage]
        by (simp add: e perKey_Cons)
    next
      case False
      then show ?thesis using Cons by (simp add: e perKey_Cons eventsOf_Cons)
    qed
  qed
  from first [OF assms, of usage]
  show "Risk (perKey attachRuleInfo key evs usage) = Risk (attachRuleInfo key usage)"
    and "UsageDescription (perKey attachRuleInfo key evs usage) = UsageDescription (attachRuleInfo key usage)"
    and "UsageMigrationNote (perKey attachRuleInfo key evs usage) = UsageMigrationNote (attachRuleInfo key usage)"
    and "UsageSourceURL (perKey attachRuleInfo key evs usage) = UsageSourceURL (attachRuleInfo key usage)"
    by simp_all
qed

lemma example_inventory: "BuildAnnotationInventory exampleVisit [exampleAnalysis] = exampleInventory"
  by code_simp

lemma newUsage_fields:
  "Key (newUsage key) = key" "UsageCount (newUsage key) = 0" "Namespaces (newUsage key) = []"
  "UniqueValues (newUsage key) = []" "ValueExamples (newUsage key) = []" "Risk (newUsage key) = []"
  "UsageDescription (newUsage key) = []" "UsageMigrationNote (newUsage key) = []"
  "UsageSourceURL (newUsage key) = []"
  by (simp_all add: newUsage_def)

text \<open>
  C10. Right after \<^const>\<open>BuildAnnotationInventory\<close> returns, every record of the unknown
  map has the empty string as risk level, description, migration note and source URL: the
  builder writes the UNKNOWN marker and the generic metadata to records of the nginx map only.
\<close>

theorem unknown_records_carry_no_risk:
  "\<forall>(key, usage) \<in> set (InvUnknownAnnotations (BuildAnnotationInventory visit analyses)).
     Risk usage = [] \<and> UsageDescription usage = [] \<and> UsageMigrationNote usage = [] \<and>
     UsageSourceURL usage = []"
proof (clarify, intro conjI)
  fix key usage
  assume "(key, usage) \<in> set (InvUnknownAnnotations (BuildAnnotationInventory visit analyses))"
  then have u: "usage = perKey keepUsage key (concat (map unknownEvents analyses)) (newUsage key)"
    unfolding Build_maps by (rule entry_fold_applyEvent)
  show "Risk usage = []" "UsageDescription usage = []" "UsageMigrationNote usage = []"
    "UsageSourceURL usage = []"
    by (simp_all add: u perKey_keepUsage_info newUsage_fields)
qed

theorem unknown_records_carry_no_risk_witness:
  "InvUnknownAnnotations (BuildAnnotationInventory exampleVisit [exampleAnalysis]) \<noteq> [] \<and>
   Risk (snd (hd (InvUnknownAnnotations (BuildAnnotationInventory exampleVisit [exampleAnalysis])))) = []"
  using unknown_records_carry_no_risk [of exampleVisit "[exampleAnalysis]"]
  unfolding example_inventory by (simp add: exampleInventory_def)

lemma eventsOf_simps:
  "eventsOf key [] = []"
  "eventsOf key (xs @ ys) = eventsOf key xs @ eventsOf key ys"
  by (simp_all add: eventsOf_def)

lemma eventsOf_annotationEvents:
  assumes "distinct (map fst (Annotations (Resource a)))"
  shows "eventsOf key (annotationEvents keep a)
         = (if keep key \<and> key \<in> fst ` set (Annotations (Resource a))
            then [(key, lookupString (Annotations (Resource a)) key, Namespace (Resource a))] else [])"
proof -
  have "distinct (map fst anns) \<Longrightarrow>
      filter (\<lambda>e. fst e = key) (map (\<lambda>kv. (fst kv, snd kv, n)) (filter (\<lambda>kv. keep (fst kv)) anns))
      = (if keep key \<and> key \<in> fst ` set anns then [(key, lookupString anns key, n)] else [])"
    for anns :: "(string \<times> string) list" and n :: string
  proof (induction anns)
    case Nil
    then show ?case by simp
  next
    case (Cons kv anns)
    from Cons.prems have notin: "fst kv \<notin> fst ` set anns" and d: "distinct (map fst anns)"
      by auto
    show ?case
    proof (cases "fst kv = key")
      case True
      with notin have "filter (\<lambda>e. fst e = key)
          (map (\<lambda>kv. (fst kv, snd kv, n)) (filter (\<lambda>kv. keep (fst kv)) anns)) = []"
        by (fastforce simp: filter_empty_conv image_iff)
      with True show ?thesis by (cases kv) (simp add: lookupString_def)
    next
      case False
      with Cons.IH [OF d] show ?thesis by (cases kv) (auto simp: lookupString_def)
    qed
  qed
  from this [OF assms] show ?thesis
    by (simp add: eventsOf_def annotationEvents_def case_prod_unfold)
qed

lemma eventsOf_all_annotationEvents:
  assumes "\<forall>a\<in>set analyses. distinct (map fst (Annotations (Resource a)))"
  shows "eventsOf key (concat (map (annotationEvents keep) analyses))
         = map (\<lambda>a. (key, lookupString (Annotations (Resource a)) key, Namespace (Resource a)))
             (filter (\<lambda>a. keep key \<and> key \<in> fst ` set (Annotations (Resource a))) analyses)"
  using assms
  by (induction analyses) (simp_all add: eventsOf_simps eventsOf_annotationEvents)

lemma keys_annotationEvents:
  "fst ` set (concat (map (annotationEvents keep) analyses))
   = {key. keep key \<and> (\<exists>a\<in>set analyses. key \<in> fst ` set (Annotations (Resource a)))}"
  by (force simp: annotationEvents_def)

text \<open>
  C3. For every list of analyses (each annotation map with one entry per key) and every
  entry of the nginx map of the inventory built from it: \<open>UsageCount\<close> is the number of
  analysed resources whose annotation map has exactly that key, and \<open>Namespaces\<close> lists
  the namespaces of those resources, each once. Resources are counted as entries of the
  input list, so the statement needs no distinctness of the resources.
\<close>

theorem known_usage_counts:
  assumes "\<forall>a\<in>set analyses. distinct (map fst (Annotations (Resource a)))"
      and "(key, usage) \<in> set (NginxAnnotations (BuildAnnotationInventory visit analyses))"
  shows "UsageCount usage
           = int (length (filter (\<lambda>a. key \<in> fst ` set (Annotations (Resource a))) analyses)) \<and>
         set (Namespaces usage)
           = {Namespace (Resource a) | a. a \<in> set analyses \<and> key \<in> fst ` set (Annotations (Resource a))} \<and>
         distinct (Namespaces usage)"
proof -
  let ?evs = "concat (map (annotationEvents inNginx) analyses)"
  from assms(2) have u: "usage = perKey attachRuleInfo key ?evs (newUsage key)"
    and k: "key \<in> fst ` set ?evs"
    unfolding Build_maps by (rule entry_fold_applyEvent)+
  from k have keep: "inNginx key" unfolding keys_annotationEvents by simp
  have ev: "eventsOf key ?evs
      = map (\<lambda>a. (key, lookupString (Annotations (Resource a)) key, Namespace (Resource a)))
          (filter (\<lambda>a. key \<in> fst ` set (Annotations (Resource a))) analyses)"
    using eventsOf_all_annotationEvents [OF assms(1), of key inNginx] keep by simp
  have "UsageCount usage
      = int (length (filter (\<lambda>a. key \<in> fst ` set (Annotations (Resource a))) analyses))"
    by (simp add: u perKey_stats(2) [OF keepsStats_attachRuleInfo] ev newUsage_fields)
  moreover have "set (Namespaces usage)
      = {Namespace (Resource a) | a. a \<in> set analyses \<and> key \<in> fst ` set (Annotations (Resource a))}"
    by (force simp: u perKey_stats(3) [OF keepsStats_attachRuleInfo] ev newUsage_fields image_image)
  moreover have "distinct (Namespaces usage)"
    by (simp add: u perKey_stats(4) [OF keepsStats_attachRuleInfo] newUsage_fields)
  ultimately show ?thesis by simp
qed

theorem known_usage_counts_witness:
  "distinct (map fst (Annotations (Resource exampleAnalysis))) \<and>
   (''nginx.ingress.kubernetes.io/server-snippet'', snd (hd (NginxAnnotations exampleInventory)))
     \<in> set (NginxAnnotations (BuildAnnotationInventory exampleVisit [exampleAnalysis])) \<and>
   UsageCount (snd (hd (NginxAnnotations exampleInventory))) = 1 \<and>
   set (Namespaces (snd (hd (NginxAnnotations exampleInventory)))) = {''prod''}"
proof -
  have h1: "\<forall>a\<in>set [exampleAnalysis]. distinct (map fst (Annotations (Resource a)))"
    by (simp add: exampleAnalysis_def exampleResource_def)
  have h2: "(''nginx.ingress.kubernetes.io/server-snippet'', snd (hd (NginxAnnotations exampleInventory)))
     \<in> set (NginxAnnotations (BuildAnnotationInventory exampleVisit [exampleAnalysis]))"
    unfolding example_inventory by (simp add: exampleInventory_def)
  from known_usage_counts [OF h1 h2] h1 h2 show ?thesis
    by (simp add: exampleInventory_def)
qed

section \<open>Known and unknown keys\<close>

lemma inNginx_iff: "inNginx key \<longleftrightarrow> HasPrefix key nginxPrefix"
  using nginx_not_system [of key] by (auto simp: inNginx_def)

lemma Resource_analyzeIngress: "Resource (analyzeIngress resource) = resource"
  "UnknownAnnotations (analyzeIngress resource) = GetUnknownNginxAnnotations (Annotations resource)"
  by (simp_all add: analyzeIngress_def Let_def)

lemma keys_unknownEvents:
  "fst ` set (concat (map unknownEvents analyses)) = (\<Union>a\<in>set analyses. set (UnknownAnnotations a))"
  by (auto simp: unknownEvents_def image_iff)

text \<open>
  C4, as the code has it. The builder folds every nginx-prefixed key into the nginx map,
  the keys without a rule included (flagged UNKNOWN), so for the analyses of the
  per-resource pass the two key sets are not disjoint: a key is in the unknown map exactly
  when it is in the nginx map and no rule has it as pattern.
\<close>

theorem unknown_keys_within_known:
  "fst ` set (InvUnknownAnnotations (BuildAnnotationInventory visit (map analyzeIngress resources)))
   = {key \<in> fst ` set (NginxAnnotations (BuildAnnotationInventory visit (map analyzeIngress resources))).
        GetRuleByPattern key = None}"
proof -
  let ?as = "map analyzeIngress resources"
  have unknown: "fst ` set (InvUnknownAnnotations (BuildAnnotationInventory visit ?as))
      = {key. \<exists>r\<in>set resources. key \<in> fst ` set (Annotations r) \<and> HasPrefix key nginxPrefix \<and>
           GetRuleByPattern key = None}"
    unfolding Build_maps keys_fold_applyEvent keys_unknownEvents
    by (force simp: Resource_analyzeIngress GetUnknownNginxAnnotations_filter)
  have known: "fst ` set (NginxAnnotations (BuildAnnotationInventory visit ?as))
      = {key. \<exists>r\<in>set resources. key \<in> fst ` set (Annotations r) \<and> HasPrefix key nginxPrefix}"
    unfolding Build_maps keys_fold_applyEvent keys_annotationEvents
    by (auto simp: Resource_analyzeIngress inNginx_iff)
  show ?thesis unfolding unknown known by auto
qed

lemma example_analysis: "analyzeIngress exampleResource = exampleAnalysis"
  by code_simp

text \<open>
  C4 as stated fails on the example cluster: its unknown annotation is a key of the nginx
  map and of the unknown map.
\<close>

theorem known_unknown_overlap:
  "\<not> (fst ` set (NginxAnnotations (BuildAnnotationInventory exampleVisit [analyzeIngress exampleResource]))
      \<inter> fst ` set (InvUnknownAnnotations (BuildAnnotationInventory exampleVisit [analyzeIngress exampleResource]))
      = {})"
  unfolding example_analysis example_inventory by (simp add: exampleInventory_def)

section \<open>Matching\<close>

text \<open>Every pattern of the rule table lies in the modelled fragment of the regular expressions.\<close>

lemma rule_patterns_compile: "list_all (\<lambda>rule. Compile (Pattern rule) \<noteq> None) GetAnnotationRules"
  by code_simp

text \<open>
  C2. The claim has \<^const>\<open>MatchAnnotations\<close> collect a rule for a key exactly when a
  pattern of the table equals the key. The code matches with \<^verbatim>\<open>regexp.MatchString\<close>, which
  looks for the pattern anywhere inside the key: for the key
  \<open>nginx.ingress.kubernetes.io/rewrite-target-v2\<close> it collects the rule "Rewrite Target",
  while \<^const>\<open>GetRuleByPattern\<close> finds no rule for that key and
  \<^const>\<open>GetUnknownNginxAnnotations\<close> reports the same key as unknown.
\<close>

theorem MatchAnnotations_matches_inside_key:
  "MatchAnnotations [(''nginx.ingress.kubernetes.io/rewrite-target-v2'', ''/'')] = [GetAnnotationRules ! 0] \<and>
   GetRuleByPattern ''nginx.ingress.kubernetes.io/rewrite-target-v2'' = None \<and>
   GetUnknownNginxAnnotations [(''nginx.ingress.kubernetes.io/rewrite-target-v2'', ''/'')]
     = [''nginx.ingress.kubernetes.io/rewrite-target-v2'']"
  by code_simp

section \<open>Criticality ranking\<close>

lemma collect_high:
  "fold (\<lambda>(_, usage) critical. if Risk usage = RiskHigh then critical @ [usage] else critical) entries acc
   = acc @ map snd (filter (\<lambda>entry. Risk (snd entry) = RiskHigh) entries)"
  by (induction entries arbitrary: acc) (simp_all add: case_prod_unfold)

lemma collect_unknown:
  "fold (\<lambda>(key, usage) (unknownMap, critical).
           let usage = usage\<lparr>Risk := ''UNKNOWN''\<rparr>
           in (unknownMap @ [(key, usage)], critical @ [usage])) entries (m, acc)
   = (m @ map markUnknown entries, acc @ map (snd \<circ> markUnknown) entries)"
  by (induction entries arbitrary: m acc) (simp_all add: case_prod_unfold markUnknown_def Let_def)

lemma GetMostCriticalAnnotations_eq:
  "GetMostCriticalAnnotations limit inventory
   = (inventory\<lparr>InvUnknownAnnotations := map markUnknown (InvUnknownAnnotations inventory)\<rparr>,
      let critical = sortSlice (\<lambda>a b. UsageCount a > UsageCount b) (criticalCandidates inventory)
      in if int (length critical) > limit
         then (if limit < 0 then Inl SliceBoundsOutOfRange else Inr (take (nat limit) critical))
         else Inr critical)"
  unfolding GetMostCriticalAnnotations_def collect_high collect_unknown criticalCandidates_def
  by (simp add: Let_def)

lemma mset_bubbleLeft: "mset (bubbleLeft lessFn x ys) = add_mset x (mset ys)"
  by (induction ys) simp_all

lemma set_bubbleLeft: "set (bubbleLeft lessFn x ys) = insert x (set ys)"
  by (induction ys) auto

lemma sorted_bubbleLeft:
  fixes f :: "'a \<Rightarrow> int"
  assumes "sorted_wrt (\<lambda>a b. f a \<le> f b) ys"
  shows "sorted_wrt (\<lambda>a b. f a \<le> f b) (bubbleLeft (\<lambda>a b. f a > f b) x ys)"
  using assms
  by (induction ys) (auto simp: set_bubbleLeft)

lemma mset_sortSlice: "mset (sortSlice lessFn xs) = mset xs"
proof -
  have "mset (fold (bubbleLeft lessFn) xs acc) = mset xs + mset acc" for acc
    by (induction xs arbitrary: acc) (simp_all add: mset_bubbleLeft)
  then show ?thesis by (simp add: sortSlice_def)
qed

lemma sorted_sortSlice:
  fixes f :: "'a \<Rightarrow> int"
  shows "sorted_wrt (\<lambda>a b. f a \<ge> f b) (sortSlice (\<lambda>a b. f a > f b) xs)"
proof -
  have "sorted_wrt (\<lambda>a b. f a \<le> f b) acc \<Longrightarrow>
      sorted_wrt (\<lambda>a b. f a \<le> f b) (fold (bubbleLeft (\<lambda>a b. f a > f b)) xs acc)" for acc
    by (induction xs arbitrary: acc) (simp_all add: sorted_bubbleLeft)
  from this [of "[]"] show ?thesis by (simp add: sortSlice_def sorted_wrt_rev)
qed

text \<open>
  C9, as the code has it. A call of \<^const>\<open>GetMostCriticalAnnotations\<close>, whatever the limit,
  leaves the all map, the nginx map and the summary as they are, and in the unknown map it
  changes one field: the risk level of every record becomes UNKNOWN. Keys, usage counts,
  namespaces, values and the other metadata of the unknown map stay.
\<close>

theorem GetMostCriticalAnnotations_frame:
  "fst (GetMostCriticalAnnotations limit inventory)
   = inventory\<lparr>InvUnknownAnnotations :=
        map (\<lambda>(key, usage). (key, usage\<lparr>Risk := ''UNKNOWN''\<rparr>)) (InvUnknownAnnotations inventory)\<rparr>"
  by (simp add: GetMostCriticalAnnotations_eq markUnknown_def case_prod_unfold)

text \<open>
  C9 as stated fails on the inventory of the example cluster: after the call the record of
  the unknown map carries the risk level UNKNOWN, where the builder had left the empty string.
\<close>

theorem GetMostCriticalAnnotations_writes_risk:
  "fst (GetMostCriticalAnnotations 10 (BuildAnnotationInventory exampleVisit [exampleAnalysis]))
   \<noteq> BuildAnnotationInventory exampleVisit [exampleAnalysis]"
  unfolding example_inventory
  by (simp add: GetMostCriticalAnnotations_eq markUnknown_def exampleInventory_def)

text \<open>
  C5, as the code has it. For every inventory and every limit that is not negative, the
  result is the first \<open>limit\<close> entries of a rearrangement of the candidates (the HIGH_RISK
  records of the nginx map and all records of the unknown map) in which usage counts never
  increase. So it has at most \<open>limit\<close> entries, and all candidates when there are no more
  than \<open>limit\<close>. The comparison reads usage counts only: nothing orders records of equal
  count by key.
\<close>

theorem GetMostCriticalAnnotations_ranking:
  assumes "0 \<le> limit"
  shows "\<exists>ranking. mset ranking = mset (criticalCandidates inventory) \<and>
           sorted_wrt (\<lambda>a b. UsageCount a \<ge> UsageCount b) ranking \<and>
           snd (GetMostCriticalAnnotations limit inventory) = Inr (take (nat limit) ranking)"
proof (intro exI conjI)
  let ?ranking = "sortSlice (\<lambda>a b. UsageCount a > UsageCount b) (criticalCandidates inventory)"
  show "mset ?ranking = mset (criticalCandidates inventory)" by (rule mset_sortSlice)
  show "sorted_wrt (\<lambda>a b. UsageCount a \<ge> UsageCount b) ?ranking" by (rule sorted_sortSlice)
  show "snd (GetMostCriticalAnnotations limit inventory) = Inr (take (nat limit) ?ranking)"
    using assms by (simp add: GetMostCriticalAnnotations_eq Let_def)
qed

lemma example_ranking:
  "snd (GetMostCriticalAnnotations 10 exampleInventory) = Inr exampleRanking"
  by code_simp

text \<open>
  C5 as stated fails on the inventory of the example cluster: the snippet record and the
  unknown record both have usage count 1, and the result lists the snippet first although
  the key of the unknown record is the smaller one.
\<close>

theorem ranking_ties_not_by_key:
  "snd (GetMostCriticalAnnotations 10 (BuildAnnotationInventory exampleVisit [exampleAnalysis]))
     = Inr exampleRanking \<and>
   \<not> rankedByUsageThenKey exampleRanking"
proof -
  have "\<not> rankedByUsageThenKey exampleRanking"
    by code_simp
  then show ?thesis by (simp add: example_inventory example_ranking)
qed

theorem GetMostCriticalAnnotations_ranking_witness:
  "(0::int) \<le> 1 \<and>
   snd (GetMostCriticalAnnotations 1 (BuildAnnotationInventory exampleVisit [exampleAnalysis]))
     = Inr (take 1 exampleRanking)"
proof -
  have "snd (GetMostCriticalAnnotations 1 exampleInventory) = Inr (take 1 exampleRanking)"
    by code_simp
  with GetMostCriticalAnnotations_ranking [of 1 "BuildAnnotationInventory exampleVisit [exampleAnalysis]"]
  show ?thesis by (simp add: example_inventory)
qed

text \<open>A negative limit makes the slice expression panic.\<close>

lemma GetMostCriticalAnnotations_negative_limit:
  "limit < 0 \<Longrightarrow> snd (GetMostCriticalAnnotations limit inventory) = Inl SliceBoundsOutOfRange"
  by (simp add: GetMostCriticalAnnotations_eq Let_def)

section \<open>Two builds of one resource set\<close>

lemma infoStable_keepUsage: "infoStable keepUsage"
  by (simp add: infoStable_def perKey_keepUsage_info)

lemma infoStable_attachRuleInfo: "infoStable attachRuleInfo"
  by (simp add: infoStable_def perKey_attachRuleInfo_info)

lemma eventsOf_perm: "mset evs = mset evs' \<Longrightarrow> mset (eventsOf key evs) = mset (eventsOf key evs')"
  by (simp add: eventsOf_def)

lemma map_of_examples_eq:
  assumes keys: "fst ` set (ValueExamples u) = fst ` set (ValueExamples u')"
      and counts: "\<And>v. exampleCount u v = exampleCount u' v"
  shows "map_of (ValueExamples u) = map_of (ValueExamples u')"
proof
  fix v
  have "map_of (ValueExamples u) v = None \<longleftrightarrow> map_of (ValueExamples u') v = None"
    using keys by (simp add: map_of_eq_None_iff)
  with counts [of v] show "map_of (ValueExamples u) v = map_of (ValueExamples u') v"
    by (cases "map_of (ValueExamples u) v"; cases "map_of (ValueExamples u') v")
       (auto simp: exampleCount_def)
qed

lemma perKey_perm:
  assumes g: "keepsStats g" "infoStable g"
      and perm: "mset evs = mset evs'"
      and ne: "eventsOf key evs \<noteq> []"
  shows "sameUsage (perKey g key evs (newUsage key)) (perKey g key evs' (newUsage key))"
proof -
  let ?es = "eventsOf key evs" and ?es' = "eventsOf key evs'"
  have m: "mset ?es = mset ?es'" using perm by (rule eventsOf_perm)
  then have len: "length ?es = length ?es'" and set: "set ?es = set ?es'"
    by (auto dest: mset_eq_length mset_eq_setD)
  from len ne have ne': "?es' \<noteq> []" by auto
  have cnt: "length (filter P ?es) = length (filter P ?es')" for P
  proof -
    from m have "mset (filter P ?es) = mset (filter P ?es')" by simp
    then show ?thesis by (rule mset_eq_length)
  qed
  have "map_of (ValueExamples (perKey g key evs (newUsage key)))
      = map_of (ValueExamples (perKey g key evs' (newUsage key)))"
    by (rule map_of_examples_eq) (simp_all add: perKey_stats [OF g(1)] set cnt)
  moreover from g(2) ne ne'
  have "Risk (perKey g key evs (newUsage key)) = Risk (perKey g key evs' (newUsage key)) \<and>
        UsageDescription (perKey g key evs (newUsage key)) = UsageDescription (perKey g key evs' (newUsage key)) \<and>
        UsageMigrationNote (perKey g key evs (newUsage key)) = UsageMigrationNote (perKey g key evs' (newUsage key)) \<and>
        UsageSourceURL (perKey g key evs (newUsage key)) = UsageSourceURL (perKey g key evs' (newUsage key))"
    unfolding infoStable_def by blast
  ultimately show ?thesis
    by (simp add: sameUsage_def perKey_stats [OF g(1)] len set)
qed

lemma eventsOf_nonempty: "eventsOf key evs \<noteq> [] \<longleftrightarrow> key \<in> fst ` set evs"
  by (force simp: eventsOf_def filter_empty_conv)

lemma usageOr_fold_empty:
  "usageOr (fold (applyEvent g) evs []) key = perKey g key evs (newUsage key)"
  using usageOr_fold_applyEvent [of g evs "[]" key] by (simp add: usageOr_def)

lemma sameUsageMap_fold:
  assumes "keepsStats g" "infoStable g" "mset evs = mset evs'"
  shows "sameUsageMap (fold (applyEvent g) evs []) (fold (applyEvent g) evs' [])"
proof -
  from assms(3) have "set evs = set evs'" by (rule mset_eq_setD)
  then show ?thesis
    using assms
    by (simp add: sameUsageMap_def keys_fold_applyEvent usageOr_fold_empty perKey_perm eventsOf_nonempty)
qed

lemma length_fold_applyEvent:
  "length (fold (applyEvent g) evs []) = card (fst ` set evs)"
proof -
  have "distinct (map fst (fold (applyEvent g) evs []))" by (rule distinct_fold_applyEvent) simp
  then have "length (map fst (fold (applyEvent g) evs [])) = card (set (map fst (fold (applyEvent g) evs [])))"
    by (simp only: distinct_card)
  then show ?thesis by (simp add: keys_fold_applyEvent)
qed

lemma mset_concat_map_perm:
  "mset xs = mset ys \<Longrightarrow> mset (concat (map f xs)) = mset (concat (map f ys))"
proof -
  have "mset (concat (map f zs)) = (\<Sum>z\<in>#mset zs. mset (f z))" for zs
    by (induction zs) simp_all
  then show "mset xs = mset ys \<Longrightarrow> ?thesis" by simp
qed

lemma sameAnalysis_annotationEvents:
  "sameAnalysis a b \<Longrightarrow> mset (annotationEvents keep a) = mset (annotationEvents keep b)"
  by (simp add: sameAnalysis_def annotationEvents_def)

lemma sameAnalysis_unknownEvents:
  assumes "sameAnalysis a b" "distinct (map fst (Annotations (Resource a)))"
  shows "mset (unknownEvents a) = mset (unknownEvents b)"
proof -
  from assms(1) have anns: "mset (Annotations (Resource a)) = mset (Annotations (Resource b))"
    by (simp add: sameAnalysis_def)
  then have "mset (map fst (Annotations (Resource a))) = mset (map fst (Annotations (Resource b)))"
    by simp
  from mset_eq_imp_distinct_iff [OF this] assms(2)
  have "distinct (map fst (Annotations (Resource b)))"
    by blast
  moreover from anns have "set (Annotations (Resource a)) = set (Annotations (Resource b))"
    by (rule mset_eq_setD)
  ultimately have "map_of (Annotations (Resource a)) = map_of (Annotations (Resource b))"
    using assms(2) by (simp only: map_of_inject_set)
  then have "lookupString (Annotations (Resource a)) = lookupString (Annotations (Resource b))"
    by (simp add: lookupString_def fun_eq_iff)
  with assms(1) show ?thesis by (simp add: sameAnalysis_def unknownEvents_def)
qed

lemma list_all2_events:
  assumes "list_all2 sameAnalysis cs bs"
      and "\<And>c b. c \<in> set cs \<Longrightarrow> sameAnalysis c b \<Longrightarrow> mset (f c) = mset (f b)"
  shows "mset (concat (map f cs)) = mset (concat (map f bs))"
  using assms by (induction rule: list_all2_induct) simp_all

lemma samePresentation_events:
  assumes wf: "\<forall>a\<in>set analyses. distinct (map fst (Annotations (Resource a)))"
      and same: "samePresentation analyses analyses'"
  shows "mset (concat (map (annotationEvents keep) analyses))
         = mset (concat (map (annotationEvents keep) analyses'))"
    and "mset (concat (map unknownEvents analyses)) = mset (concat (map unknownEvents analyses'))"
proof -
  from same obtain cs where cs: "mset cs = mset analyses" and rel: "list_all2 sameAnalysis cs analyses'"
    by (auto simp: samePresentation_def)
  from cs have "set cs = set analyses" by (rule mset_eq_setD)
  with wf have wfc: "\<And>c. c \<in> set cs \<Longrightarrow> distinct (map fst (Annotations (Resource c)))" by simp
  have "mset (concat (map (annotationEvents keep) cs)) = mset (concat (map (annotationEvents keep) analyses'))"
    using rel by (rule list_all2_events) (rule sameAnalysis_annotationEvents)
  with cs show "mset (concat (map (annotationEvents keep) analyses))
         = mset (concat (map (annotationEvents keep) analyses'))"
    using mset_concat_map_perm [of cs analyses "annotationEvents keep"] by simp
  have "mset (concat (map unknownEvents cs)) = mset (concat (map unknownEvents analyses'))"
    using rel by (rule list_all2_events) (simp add: sameAnalysis_unknownEvents wfc)
  with cs show "mset (concat (map unknownEvents analyses)) = mset (concat (map unknownEvents analyses'))"
    using mset_concat_map_perm [of cs analyses unknownEvents] by simp
qed


lemma mostUsedStep_present:
  "key \<in> fst ` set m \<Longrightarrow>
   mostUsedStep m key (mx, s)
   = (if UsageCount (usageOr m key) > mx
      then (UsageCount (usageOr m key), s\<lparr>MostUsedAnnotation := key\<rparr>) else (mx, s))"
  by (cases "map_of m key") (auto simp: mostUsedStep_def usageOr_def map_of_eq_None_iff)

lemma mostUsed_stay:
  "set visit \<subseteq> fst ` set m \<Longrightarrow> \<forall>k\<in>set visit. UsageCount (usageOr m k) \<le> mx \<Longrightarrow>
   fold (mostUsedStep m) visit (mx, s) = (mx, s)"
  by (induction visit) (simp_all add: mostUsedStep_present)

lemma mostUsed_unique:
  assumes "k \<in> set visit" "set visit \<subseteq> fst ` set m" "mx < UsageCount (usageOr m k)"
      and "\<forall>k'\<in>set visit. k' \<noteq> k \<longrightarrow> UsageCount (usageOr m k') < UsageCount (usageOr m k)"
  shows "MostUsedAnnotation (snd (fold (mostUsedStep m) visit (mx, s))) = k"
  using assms
proof (induction visit arbitrary: mx s)
  case Nil
  then show ?case by simp
next
  case (Cons k' visit)
  show ?case
  proof (cases "k' = k")
    case True
    have "\<forall>k''\<in>set visit. UsageCount (usageOr m k'') \<le> UsageCount (usageOr m k)"
      using Cons.prems(4) by (auto simp: less_imp_le)
    with Cons.prems(2) have "fold (mostUsedStep m) visit (UsageCount (usageOr m k), s\<lparr>MostUsedAnnotation := k\<rparr>)
        = (UsageCount (usageOr m k), s\<lparr>MostUsedAnnotation := k\<rparr>)"
      by (intro mostUsed_stay) auto
    with True Cons.prems(2,3) show ?thesis by (simp add: mostUsedStep_present)
  next
    case False
    with Cons.prems have k: "k \<in> set visit" and sub: "set visit \<subseteq> fst ` set m"
      and less: "UsageCount (usageOr m k') < UsageCount (usageOr m k)"
      and rest: "\<forall>k''\<in>set visit. k'' \<noteq> k \<longrightarrow> UsageCount (usageOr m k'') < UsageCount (usageOr m k)"
      and k': "k' \<in> fst ` set m"
      by auto
    show ?thesis
    proof (cases "UsageCount (usageOr m k') > mx")
      case True
      with Cons.IH [OF k sub less rest] k' show ?thesis by (simp add: mostUsedStep_present)
    next
      case False
      with Cons.IH [OF k sub Cons.prems(3) rest] k' show ?thesis by (simp add: mostUsedStep_present)
    qed
  qed
qed

lemma mostUsed_other_fields:
  "TotalUniqueAnnotations (snd (fold (mostUsedStep m) visit (mx, s))) = TotalUniqueAnnotations s"
  "NginxAnnotationsCount (snd (fold (mostUsedStep m) visit (mx, s))) = NginxAnnotationsCount s"
  "UnknownAnnotationsCount (snd (fold (mostUsedStep m) visit (mx, s))) = UnknownAnnotationsCount s"
  "MostComplexNamespace (snd (fold (mostUsedStep m) visit (mx, s))) = MostComplexNamespace s"
  by (induction visit arbitrary: mx s) (auto simp: mostUsedStep_def split: option.splits)

lemma Build_Summary:
  "TotalUniqueAnnotations (Summary (BuildAnnotationInventory visit analyses))
   = int (length (AllAnnotations (BuildAnnotationInventory visit analyses)))"
  "NginxAnnotationsCount (Summary (BuildAnnotationInventory visit analyses))
   = int (length (NginxAnnotations (BuildAnnotationInventory visit analyses)))"
  "UnknownAnnotationsCount (Summary (BuildAnnotationInventory visit analyses))
   = int (length (InvUnknownAnnotations (BuildAnnotationInventory visit analyses)))"
  "MostComplexNamespace (Summary (BuildAnnotationInventory visit analyses)) = []"
  "MostUsedAnnotation (Summary (BuildAnnotationInventory visit analyses))
   = MostUsedAnnotation (snd (fold (mostUsedStep (AllAnnotations (BuildAnnotationInventory visit analyses))) visit
       (0, \<lparr>TotalUniqueAnnotations = int (length (AllAnnotations (BuildAnnotationInventory visit analyses))),
            NginxAnnotationsCount = int (length (NginxAnnotations (BuildAnnotationInventory visit analyses))),
            UnknownAnnotationsCount = int (length (InvUnknownAnnotations (BuildAnnotationInventory visit analyses))),
            MostUsedAnnotation = [], MostComplexNamespace = []\<rparr>)))"
  by (simp_all add: BuildAnnotationInventory_def generateInventorySummary_def Let_def mostUsed_other_fields)

lemma Build_count_positive:
  assumes "key \<in> fst ` set (AllAnnotations (BuildAnnotationInventory visit analyses))"
  shows "0 < UsageCount (usageOr (AllAnnotations (BuildAnnotationInventory visit analyses)) key)"
proof -
  from assms have "eventsOf key (concat (map (annotationEvents inAll) analyses)) \<noteq> []"
    by (simp add: Build_maps keys_fold_applyEvent eventsOf_nonempty)
  then show ?thesis
    by (simp add: Build_maps usageOr_fold_empty perKey_stats(2) [OF keepsStats_keepUsage] newUsage_fields)
qed

lemma Build_most_used:
  assumes v: "mset visit = mset (map fst (AllAnnotations (BuildAnnotationInventory visit analyses)))"
      and key: "key \<in> fst ` set (AllAnnotations (BuildAnnotationInventory visit analyses))"
      and top: "\<forall>key'\<in>fst ` set (AllAnnotations (BuildAnnotationInventory visit analyses)). key' \<noteq> key \<longrightarrow>
                 UsageCount (usageOr (AllAnnotations (BuildAnnotationInventory visit analyses)) key')
                 < UsageCount (usageOr (AllAnnotations (BuildAnnotationInventory visit analyses)) key)"
  shows "MostUsedAnnotation (Summary (BuildAnnotationInventory visit analyses)) = key"
proof -
  from mset_eq_setD [OF v]
  have sv: "set visit = fst ` set (AllAnnotations (BuildAnnotationInventory visit analyses))"
    by simp
  show ?thesis
    unfolding Build_Summary(5)
    by (rule mostUsed_unique) (use sv key top Build_count_positive [OF key] in auto)
qed

text \<open>
  The summary loop replaces its candidate only for a count strictly above the highest so
  far, so it ends with the first visited key whose count no visited key exceeds.
\<close>

lemma top_exists:
  fixes f :: "'a \<Rightarrow> int"
  shows "xs \<noteq> [] \<Longrightarrow> \<exists>x\<in>set xs. \<forall>y\<in>set xs. f y \<le> f x"
proof (induction xs)
  case Nil
  then show ?case by simp
next
  case (Cons a xs)
  show ?case
  proof (cases "xs = []")
    case True
    then show ?thesis by simp
  next
    case False
    with Cons.IH obtain x where x: "x \<in> set xs" "\<forall>y\<in>set xs. f y \<le> f x" by blast
    show ?thesis
    proof (cases "f x \<le> f a")
      case True
      with x(2) have "\<forall>y\<in>set (a # xs). f y \<le> f a" by auto
      then show ?thesis by auto
    next
      case False
      with x(2) have "\<forall>y\<in>set (a # xs). f y \<le> f x" by auto
      with x(1) show ?thesis by auto
    qed
  qed
qed

lemma mostUsed_first_top:
  assumes "set visit \<subseteq> fst ` set m"
  shows "MostUsedAnnotation (snd (fold (mostUsedStep m) visit (mx, s)))
         = (case find (\<lambda>key. mx < UsageCount (usageOr m key) \<and>
                         (\<forall>key'\<in>set visit. UsageCount (usageOr m key') \<le> UsageCount (usageOr m key))) visit of
              Some key \<Rightarrow> key
            | None \<Rightarrow> MostUsedAnnotation s)"
  using assms
proof (induction visit arbitrary: mx s)
  case Nil
  then show ?case by simp
next
  case (Cons k visit)
  let ?c = "\<lambda>key. UsageCount (usageOr m key)"
  from Cons.prems have k: "k \<in> fst ` set m" and sub: "set visit \<subseteq> fst ` set m" by auto
  show ?case
  proof (cases "mx < ?c k")
    case False
    have "find (\<lambda>key. mx < ?c key \<and> (\<forall>key'\<in>set (k # visit). ?c key' \<le> ?c key)) visit
        = find (\<lambda>key. mx < ?c key \<and> (\<forall>key'\<in>set visit. ?c key' \<le> ?c key)) visit"
      using False by (intro find_cong) auto
    with False Cons.IH [OF sub, of mx s] k show ?thesis
      by (simp add: mostUsedStep_present)
  next
    case True
    note IH = Cons.IH [OF sub, of "?c k" "s\<lparr>MostUsedAnnotation := k\<rparr>"]
    show ?thesis
    proof (cases "\<forall>key'\<in>set visit. ?c key' \<le> ?c k")
      case top: True
      then have "find (\<lambda>key. ?c k < ?c key \<and> (\<forall>key'\<in>set visit. ?c key' \<le> ?c key)) visit = None"
        by (auto simp: find_None_iff)
      with IH True top k show ?thesis by (simp add: mostUsedStep_present)
    next
      case nottop: False
      then have ne: "visit \<noteq> []" by auto
      from top_exists [OF ne, of ?c] obtain x where x: "x \<in> set visit" "\<forall>y\<in>set visit. ?c y \<le> ?c x"
        by blast
      from nottop x have big: "?c k < ?c x" by force
      have same: "find (\<lambda>key. mx < ?c key \<and> (\<forall>key'\<in>set (k # visit). ?c key' \<le> ?c key)) visit
          = find (\<lambda>key. ?c k < ?c key \<and> (\<forall>key'\<in>set visit. ?c key' \<le> ?c key)) visit"
        using True big x by (intro find_cong) force+
      have "find (\<lambda>key. ?c k < ?c key \<and> (\<forall>key'\<in>set visit. ?c key' \<le> ?c key)) visit \<noteq> None"
        using x big by (auto simp: find_None_iff)
      then obtain y where y: "find (\<lambda>key. ?c k < ?c key \<and> (\<forall>key'\<in>set visit. ?c key' \<le> ?c key)) visit = Some y"
        by auto
      from nottop have "\<not> (mx < ?c k \<and> (\<forall>key'\<in>set (k # visit). ?c key' \<le> ?c k))" by auto
      with IH True k same y show ?thesis by (auto simp: mostUsedStep_present)
    qed
  qed
qed

lemma Build_first_top:
  assumes v: "mset visit = mset (map fst (AllAnnotations (BuildAnnotationInventory visit analyses)))"
  shows "MostUsedAnnotation (Summary (BuildAnnotationInventory visit analyses))
         = firstTopKey (AllAnnotations (BuildAnnotationInventory visit analyses)) visit"
proof -
  let ?m = "AllAnnotations (BuildAnnotationInventory visit analyses)"
  from mset_eq_setD [OF v] have sv: "set visit = fst ` set ?m" by simp
  have pos: "0 < UsageCount (usageOr ?m key)" if "key \<in> set visit" for key
    using that sv Build_count_positive [of key visit analyses] by simp
  have "find (\<lambda>key. 0 < UsageCount (usageOr ?m key) \<and>
                (\<forall>key'\<in>set visit. UsageCount (usageOr ?m key') \<le> UsageCount (usageOr ?m key))) visit
      = find (\<lambda>key. \<forall>key'\<in>set visit. UsageCount (usageOr ?m key') \<le> UsageCount (usageOr ?m key)) visit"
    using pos by (intro find_cong) auto
  moreover from sv have sub: "set visit \<subseteq> fst ` set ?m" by simp
  ultimately show ?thesis
    unfolding Build_Summary(5) firstTopKey_def mostUsed_first_top [OF sub] by (simp split: option.split)
qed


text \<open>
  C8, as the code has it. Take two presentations of the same resource set (the analyses
  in any order, every annotation map and unknown list in any order) and build an inventory
  from each, the summary loop visiting the keys of the all map in any order. The two
  inventories agree key by key in all three maps (same usage counts, same namespace and
  value sets, same value histogram, same metadata) and in the three counts of the summary.
  \<open>MostUsedAnnotation\<close> is the same in both, and is that key, whenever one key has a
  usage count above every other key's. In each build it is the first key that the summary
  loop of that build visits among the keys of the highest usage count (\<^const>\<open>firstTopKey\<close>),
  so with a tie for the highest count it is whichever tied key the loop visits first.
\<close>

theorem rebuild_agrees:
  assumes wf: "\<forall>a\<in>set analyses. distinct (map fst (Annotations (Resource a)))"
      and same: "samePresentation analyses analyses'"
      and v: "mset visit = mset (map fst (AllAnnotations (BuildAnnotationInventory visit analyses)))"
      and v': "mset visit' = mset (map fst (AllAnnotations (BuildAnnotationInventory visit' analyses')))"
  shows "sameUsageMap (AllAnnotations (BuildAnnotationInventory visit analyses))
           (AllAnnotations (BuildAnnotationInventory visit' analyses')) \<and>
         sameUsageMap (NginxAnnotations (BuildAnnotationInventory visit analyses))
           (NginxAnnotations (BuildAnnotationInventory visit' analyses')) \<and>
         sameUsageMap (InvUnknownAnnotations (BuildAnnotationInventory visit analyses))
           (InvUnknownAnnotations (BuildAnnotationInventory visit' analyses')) \<and>
         TotalUniqueAnnotations (Summary (BuildAnnotationInventory visit analyses))
           = TotalUniqueAnnotations (Summary (BuildAnnotationInventory visit' analyses')) \<and>
         NginxAnnotationsCount (Summary (BuildAnnotationInventory visit analyses))
           = NginxAnnotationsCount (Summary (BuildAnnotationInventory visit' analyses')) \<and>
         UnknownAnnotationsCount (Summary (BuildAnnotationInventory visit analyses))
           = UnknownAnnotationsCount (Summary (BuildAnnotationInventory visit' analyses')) \<and>
         MostComplexNamespace (Summary (BuildAnnotationInventory visit analyses))
           = MostComplexNamespace (Summary (BuildAnnotationInventory visit' analyses')) \<and>
         (\<forall>key \<in> fst ` set (AllAnnotations (BuildAnnotationInventory visit analyses)).
            (\<forall>key' \<in> fst ` set (AllAnnotations (BuildAnnotationInventory visit analyses)). key' \<noteq> key \<longrightarrow>
               UsageCount (usageOr (AllAnnotations (BuildAnnotationInventory visit analyses)) key')
               < UsageCount (usageOr (AllAnnotations (BuildAnnotationInventory visit analyses)) key)) \<longrightarrow>
            MostUsedAnnotation (Summary (BuildAnnotationInventory visit analyses)) = key \<and>
            MostUsedAnnotation (Summary (BuildAnnotationInventory visit' analyses')) = key) \<and>
         MostUsedAnnotation (Summary (BuildAnnotationInventory visit analyses))
           = firstTopKey (AllAnnotations (BuildAnnotationInventory visit analyses)) visit \<and>
         MostUsedAnnotation (Summary (BuildAnnotationInventory visit' analyses'))
           = firstTopKey (AllAnnotations (BuildAnnotationInventory visit' analyses')) visit'"
proof -
  let ?inv = "BuildAnnotationInventory visit analyses" and ?inv' = "BuildAnnotationInventory visit' analyses'"
  note ev = samePresentation_events [OF wf same]
  have all: "sameUsageMap (AllAnnotations ?inv) (AllAnnotations ?inv')"
    unfolding Build_maps
    by (rule sameUsageMap_fold [OF keepsStats_keepUsage infoStable_keepUsage ev(1)])
  have nginx: "sameUsageMap (NginxAnnotations ?inv) (NginxAnnotations ?inv')"
    unfolding Build_maps
    by (rule sameUsageMap_fold [OF keepsStats_attachRuleInfo infoStable_attachRuleInfo ev(1)])
  have unknown: "sameUsageMap (InvUnknownAnnotations ?inv) (InvUnknownAnnotations ?inv')"
    unfolding Build_maps
    by (rule sameUsageMap_fold [OF keepsStats_keepUsage infoStable_keepUsage ev(2)])
  have counts: "TotalUniqueAnnotations (Summary ?inv) = TotalUniqueAnnotations (Summary ?inv')"
    "NginxAnnotationsCount (Summary ?inv) = NginxAnnotationsCount (Summary ?inv')"
    "UnknownAnnotationsCount (Summary ?inv) = UnknownAnnotationsCount (Summary ?inv')"
    "MostComplexNamespace (Summary ?inv) = MostComplexNamespace (Summary ?inv')"
    unfolding Build_Summary Build_maps length_fold_applyEvent
    using mset_eq_setD [OF ev(1)] mset_eq_setD [OF ev(2)] by simp_all
  have most: "MostUsedAnnotation (Summary ?inv) = key \<and> MostUsedAnnotation (Summary ?inv') = key"
    if key: "key \<in> fst ` set (AllAnnotations ?inv)"
    and top: "\<forall>key' \<in> fst ` set (AllAnnotations ?inv). key' \<noteq> key \<longrightarrow>
               UsageCount (usageOr (AllAnnotations ?inv) key') < UsageCount (usageOr (AllAnnotations ?inv) key)"
    for key
  proof
    show "MostUsedAnnotation (Summary ?inv) = key"
      using v key top by (rule Build_most_used)
    from all have keys: "fst ` set (AllAnnotations ?inv) = fst ` set (AllAnnotations ?inv')"
      by (simp add: sameUsageMap_def)
    have cnt: "UsageCount (usageOr (AllAnnotations ?inv) k) = UsageCount (usageOr (AllAnnotations ?inv') k)"
      if "k \<in> fst ` set (AllAnnotations ?inv)" for k
      using all that unfolding sameUsageMap_def sameUsage_def by blast
    show "MostUsedAnnotation (Summary ?inv') = key"
    proof (rule Build_most_used [OF v'])
      show "key \<in> fst ` set (AllAnnotations ?inv')" using key keys by simp
      show "\<forall>key'\<in>fst ` set (AllAnnotations ?inv'). key' \<noteq> key \<longrightarrow>
          UsageCount (usageOr (AllAnnotations ?inv') key') < UsageCount (usageOr (AllAnnotations ?inv') key)"
        using top key cnt keys by auto
    qed
  qed
  note first = Build_first_top [OF v] Build_first_top [OF v']
  from all nginx unknown counts most first show ?thesis by blast
qed

lemma example_rebuild:
  "map (\<lambda>entry. (fst entry, UsageCount (snd entry)))
     (AllAnnotations (BuildAnnotationInventory exampleVisit [exampleAnalysis, exampleAnalysis2]))
   = [(''nginx.ingress.kubernetes.io/server-snippet'', 2), (''nginx.ingress.kubernetes.io/custom-unknown'', 1)]"
  "map (\<lambda>entry. (fst entry, UsageCount (snd entry)))
     (AllAnnotations (BuildAnnotationInventory (rev exampleVisit) [exampleAnalysis2, exampleAnalysisSwapped]))
   = [(''nginx.ingress.kubernetes.io/server-snippet'', 2), (''nginx.ingress.kubernetes.io/custom-unknown'', 1)]"
  by code_simp+

lemma example_most_used_reversed:
  "MostUsedAnnotation (Summary (BuildAnnotationInventory (rev exampleVisit) [exampleAnalysis]))
   = ''nginx.ingress.kubernetes.io/custom-unknown''"
  by code_simp


lemma count_lookup:
  "UsageCount (usageOr m key)
   = (case map_of (map (\<lambda>entry. (fst entry, UsageCount (snd entry))) m) key of Some c \<Rightarrow> c | None \<Rightarrow> 0)"
  by (induction m) (auto simp: usageOr_def newUsage_def)

lemma keys_lookup: "map fst m = map fst (map (\<lambda>entry. (fst entry, UsageCount (snd entry))) m)"
  by simp

text \<open>
  C8 as stated fails on the example cluster: its two annotations are used once each, and
  building from the same analysis gives the snippet as \<open>MostUsedAnnotation\<close> when the
  summary loop meets the snippet first, the unknown annotation when it meets that first.
\<close>

theorem most_used_follows_visit_order:
  "map fst (AllAnnotations (BuildAnnotationInventory exampleVisit [exampleAnalysis])) = exampleVisit \<and>
   mset (rev exampleVisit) = mset exampleVisit \<and>
   MostUsedAnnotation (Summary (BuildAnnotationInventory exampleVisit [exampleAnalysis]))
     = ''nginx.ingress.kubernetes.io/server-snippet'' \<and>
   MostUsedAnnotation (Summary (BuildAnnotationInventory (rev exampleVisit) [exampleAnalysis]))
     = ''nginx.ingress.kubernetes.io/custom-unknown''"
  unfolding example_inventory example_most_used_reversed
  by (simp add: exampleInventory_def exampleVisit_def)

theorem rebuild_agrees_witness:
  "distinct (map fst (Annotations (Resource exampleAnalysis))) \<and>
   distinct (map fst (Annotations (Resource exampleAnalysis2))) \<and>
   samePresentation [exampleAnalysis, exampleAnalysis2] [exampleAnalysis2, exampleAnalysisSwapped] \<and>
   mset exampleVisit
     = mset (map fst (AllAnnotations (BuildAnnotationInventory exampleVisit [exampleAnalysis, exampleAnalysis2]))) \<and>
   mset (rev exampleVisit)
     = mset (map fst (AllAnnotations
         (BuildAnnotationInventory (rev exampleVisit) [exampleAnalysis2, exampleAnalysisSwapped]))) \<and>
   MostUsedAnnotation (Summary (BuildAnnotationInventory exampleVisit [exampleAnalysis, exampleAnalysis2]))
     = ''nginx.ingress.kubernetes.io/server-snippet'' \<and>
   MostUsedAnnotation (Summary (BuildAnnotationInventory (rev exampleVisit) [exampleAnalysis2, exampleAnalysisSwapped]))
     = ''nginx.ingress.kubernetes.io/server-snippet''"
proof -
  let ?as = "[exampleAnalysis, exampleAnalysis2]" and ?bs = "[exampleAnalysis2, exampleAnalysisSwapped]"
  let ?all = "AllAnnotations (BuildAnnotationInventory exampleVisit ?as)"
  have d: "distinct (map fst (Annotations (Resource exampleAnalysis)))"
    "distinct (map fst (Annotations (Resource exampleAnalysis2)))"
    by (simp_all add: exampleAnalysis_def exampleAnalysis2_def exampleResource_def exampleResource2_def)
  then have wf: "\<forall>a\<in>set ?as. distinct (map fst (Annotations (Resource a)))" by simp
  have "mset [exampleAnalysis2, exampleAnalysis] = mset ?as \<and>
      list_all2 sameAnalysis [exampleAnalysis2, exampleAnalysis] ?bs"
    by (simp add: sameAnalysis_def exampleAnalysisSwapped_def exampleAnalysis_def exampleResource_def)
  then have same: "samePresentation ?as ?bs"
    unfolding samePresentation_def by (rule exI)
  have k: "map fst ?all = exampleVisit"
    unfolding keys_lookup [of ?all] example_rebuild by (simp add: exampleVisit_def)
  have k': "map fst (AllAnnotations (BuildAnnotationInventory (rev exampleVisit) ?bs)) = exampleVisit"
    unfolding keys_lookup [of "AllAnnotations (BuildAnnotationInventory (rev exampleVisit) ?bs)"] example_rebuild
    by (simp add: exampleVisit_def)
  have v: "mset exampleVisit = mset (map fst ?all)"
    by (simp only: k)
  have v': "mset (rev exampleVisit)
      = mset (map fst (AllAnnotations (BuildAnnotationInventory (rev exampleVisit) ?bs)))"
    by (simp only: k' mset_rev)
  have key: "''nginx.ingress.kubernetes.io/server-snippet'' \<in> fst ` set ?all"
    using k by (simp add: exampleVisit_def flip: set_map)
  have top: "\<forall>key'\<in>fst ` set ?all. key' \<noteq> ''nginx.ingress.kubernetes.io/server-snippet'' \<longrightarrow>
      UsageCount (usageOr ?all key') < UsageCount (usageOr ?all ''nginx.ingress.kubernetes.io/server-snippet'')"
    unfolding count_lookup example_rebuild set_map [symmetric] k
    by (simp add: exampleVisit_def)
  from rebuild_agrees [OF wf same v v'] key top
  have "MostUsedAnnotation (Summary (BuildAnnotationInventory exampleVisit ?as))
      = ''nginx.ingress.kubernetes.io/server-snippet'' \<and>
    MostUsedAnnotation (Summary (BuildAnnotationInventory (rev exampleVisit) ?bs))
      = ''nginx.ingress.kubernetes.io/server-snippet''"
    by blast
  with d same v v' show ?thesis by blast
qed

section \<open>Namespace complexity\<close>

subsection \<open>Rounding to float64\<close>

lemma floor_bitlen_bounds:
  fixes y :: rat
  assumes "1 \<le> y"
  shows "2 ^ nat (bitlen \<lfloor>y\<rfloor> - 1) \<le> y" and "y < 2 ^ nat (bitlen \<lfloor>y\<rfloor>)" and "1 \<le> bitlen \<lfloor>y\<rfloor>"
proof -
  let ?n = "\<lfloor>y\<rfloor>"
  from assms have n: "0 < ?n" by simp
  from bitlen_bounds [OF n] have lo: "2 ^ nat (bitlen ?n - 1) \<le> ?n" and hi: "?n < 2 ^ nat (bitlen ?n)"
    by simp_all
  from lo have "(of_int (2 ^ nat (bitlen ?n - 1)) :: rat) \<le> of_int ?n"
    by (simp only: of_int_le_iff)
  also have "\<dots> \<le> y" by simp
  finally show "2 ^ nat (bitlen \<lfloor>y\<rfloor> - 1) \<le> y" by simp
  from hi have "?n + 1 \<le> 2 ^ nat (bitlen ?n)" by simp
  then have "(of_int (?n + 1) :: rat) \<le> of_int (2 ^ nat (bitlen ?n))"
    by (simp only: of_int_le_iff)
  moreover have "y < of_int (?n + 1)" by linarith
  ultimately show "y < 2 ^ nat (bitlen \<lfloor>y\<rfloor>)" by simp
  from n show "1 \<le> bitlen \<lfloor>y\<rfloor>"
    using bitlen_eq_zero_iff [of ?n] bitlen_nonneg [of ?n] by linarith
qed

lemma binade_bounds:
  assumes "0 < x"
  shows "2 powi (binade x) \<le> x" and "x < 2 powi (binade x + 1)"
proof -
  have "2 powi (binade x) \<le> x \<and> x < 2 powi (binade x + 1)"
  proof (cases "1 \<le> x")
    case True
    note b = floor_bitlen_bounds [OF True]
    from True have e: "binade x = bitlen \<lfloor>x\<rfloor> - 1" by (simp add: binade_def)
    from b(3) have "2 powi (binade x) = (2::rat) ^ nat (bitlen \<lfloor>x\<rfloor> - 1)"
      by (simp add: e power_int_def)
    moreover from b(3) have "2 powi (binade x + 1) = (2::rat) ^ nat (bitlen \<lfloor>x\<rfloor>)"
      by (simp add: e power_int_def)
    ultimately show ?thesis using b(1,2) by simp
  next
    case False
    with assms have y: "1 \<le> 1 / x" by (simp add: field_simps)
    note b = floor_bitlen_bounds [OF y]
    define m where "m = bitlen \<lfloor>1 / x\<rfloor> - 1"
    from b(3) have m0: "0 \<le> m" by (simp add: m_def)
    from b(1) have lo: "2 ^ nat m \<le> 1 / x" by (simp add: m_def)
    from b(2) m0 have hi: "1 / x < 2 ^ nat (m + 1)" by (simp add: m_def)
    from lo assms have xle: "x * 2 ^ nat m \<le> 1" by (simp add: field_simps)
    from hi assms have xgt: "1 < x * 2 ^ nat (m + 1)" by (simp add: field_simps)
    have pm: "2 powi (- m) = 1 / (2::rat) ^ nat m"
      using m0 by (cases "m = 0") (simp_all add: power_int_def field_simps)
    have pm1: "2 powi (- m - 1) = 1 / (2::rat) ^ nat (m + 1)"
      using m0 by (simp add: power_int_def field_simps)
    have pm2: "2 powi (- m + 1) = 2 / (2::rat) ^ nat m"
      using m0 power_int_add_1 [of "2::rat" "- m"] pm by simp
    show ?thesis
    proof (cases "x * 2 ^ nat m = 1")
      case True
      with False have e: "binade x = - m" by (simp add: binade_def m_def Let_def)
      from True have "x = 1 / 2 ^ nat m" by (simp add: field_simps)
      moreover have "1 / (2::rat) ^ nat m < 2 / 2 ^ nat m"
        by (simp add: divide_strict_right_mono)
      ultimately show ?thesis unfolding e pm pm2 by simp
    next
      case neq: False
      with False have e: "binade x = - m - 1" by (simp add: binade_def m_def Let_def)
      from neq xle have "x * 2 ^ nat m < 1" by simp
      then have "x < 1 / 2 ^ nat m" by (simp add: field_simps)
      moreover from xgt have "1 / 2 ^ nat (m + 1) < x" by (simp add: field_simps)
      moreover have "2 powi (- m - 1 + 1) = 1 / (2::rat) ^ nat m" using pm by simp
      ultimately show ?thesis unfolding e pm1 by simp
    qed
  qed
  then show "2 powi (binade x) \<le> x" and "x < 2 powi (binade x + 1)" by simp_all
qed

lemma binade_unique:
  assumes "0 < x" "2 powi e \<le> x" "x < 2 powi (e + 1)"
  shows "binade x = e"
proof (rule ccontr)
  assume ne: "binade x \<noteq> e"
  note b = binade_bounds [OF assms(1)]
  show False
  proof (cases "binade x < e")
    case True
    then have "(2::rat) powi (binade x + 1) \<le> 2 powi e"
      by (intro power_int_increasing) simp_all
    with b(2) assms(2) show False by simp
  next
    case False
    with ne have "e + 1 \<le> binade x" by simp
    then have "(2::rat) powi (e + 1) \<le> 2 powi (binade x)"
      by (intro power_int_increasing) simp_all
    with b(1) assms(3) show False by simp
  qed
qed

lemma binade_mono:
  assumes "0 < x" "x \<le> y"
  shows "binade x \<le> binade y"
proof (rule ccontr)
  assume "\<not> binade x \<le> binade y"
  then have "binade y + 1 \<le> binade x" by simp
  then have "(2::rat) powi (binade y + 1) \<le> 2 powi (binade x)"
    by (intro power_int_increasing) simp_all
  moreover from assms have "0 < y" by simp
  ultimately show False
    using binade_bounds [OF assms(1)] binade_bounds [OF \<open>0 < y\<close>] assms(2) by simp
qed

lemma roundHalfEven_of_int: "roundHalfEven (of_int n) = n"
  by (simp add: roundHalfEven_def)

lemma roundHalfEven_range: "\<lfloor>r\<rfloor> \<le> roundHalfEven r" "roundHalfEven r \<le> \<lfloor>r\<rfloor> + 1"
  by (simp_all add: roundHalfEven_def Let_def)

lemma roundHalfEven_mono:
  assumes "r \<le> s"
  shows "roundHalfEven r \<le> roundHalfEven s"
proof (cases "\<lfloor>r\<rfloor> = \<lfloor>s\<rfloor>")
  case True
  with assms have "r - of_int \<lfloor>r\<rfloor> \<le> s - of_int \<lfloor>s\<rfloor>" by simp
  with True show ?thesis by (auto simp: roundHalfEven_def Let_def)
next
  case False
  from assms have "\<lfloor>r\<rfloor> \<le> \<lfloor>s\<rfloor>" by (rule floor_mono)
  with False have "\<lfloor>r\<rfloor> + 1 \<le> \<lfloor>s\<rfloor>" by simp
  with roundHalfEven_range(2) [of r] roundHalfEven_range(1) [of s] show ?thesis by linarith
qed


lemma round64_pos:
  "0 < x \<Longrightarrow> round64 x = of_int (roundHalfEven (x / 2 powi (binade x - 52))) * 2 powi (binade x - 52)"
  by (simp add: round64_def Let_def)

lemma scaled_bounds:
  assumes "0 < x"
  shows "2 ^ 52 \<le> x / 2 powi (binade x - 52)" and "x / 2 powi (binade x - 52) \<le> 2 ^ 53"
proof -
  have u: "(0::rat) < 2 powi (binade x - 52)" by simp
  have "2 powi (binade x) = (2::rat) ^ 52 * 2 powi (binade x - 52)"
    using power_int_add [of "2::rat" 52 "binade x - 52"] by simp
  with binade_bounds(1) [OF assms] u show "2 ^ 52 \<le> x / 2 powi (binade x - 52)"
    by (simp add: pos_le_divide_eq)
  have "2 powi (binade x + 1) = (2::rat) ^ 53 * 2 powi (binade x - 52)"
    using power_int_add [of "2::rat" 53 "binade x - 52"] by (simp add: add.commute)
  with binade_bounds(2) [OF assms] u show "x / 2 powi (binade x - 52) \<le> 2 ^ 53"
    by (simp add: pos_divide_le_eq)
qed

lemma round64_bounds:
  assumes "0 < x"
  shows "2 powi (binade x) \<le> round64 x" and "round64 x \<le> 2 powi (binade x + 1)"
proof -
  let ?u = "(2::rat) powi (binade x - 52)"
  have u: "0 < ?u" by simp
  have "roundHalfEven (of_int (2 ^ 52)) \<le> roundHalfEven (x / ?u)"
    using scaled_bounds(1) [OF assms] by (intro roundHalfEven_mono) simp
  then have lo: "2 ^ 52 \<le> roundHalfEven (x / ?u)" by (simp only: roundHalfEven_of_int)
  have "roundHalfEven (x / ?u) \<le> roundHalfEven (of_int (2 ^ 53))"
    using scaled_bounds(2) [OF assms] by (intro roundHalfEven_mono) simp
  then have hi: "roundHalfEven (x / ?u) \<le> 2 ^ 53" by (simp only: roundHalfEven_of_int)
  have e0: "2 powi (binade x) = (2::rat) ^ 52 * ?u"
    using power_int_add [of "2::rat" 52 "binade x - 52"] by simp
  have e1: "2 powi (binade x + 1) = (2::rat) ^ 53 * ?u"
    using power_int_add [of "2::rat" 53 "binade x - 52"] by (simp add: add.commute)
  from lo have "(of_int (2 ^ 52) :: rat) \<le> of_int (roundHalfEven (x / ?u))"
    by (simp only: of_int_le_iff)
  then have "(2::rat) ^ 52 * ?u \<le> of_int (roundHalfEven (x / ?u)) * ?u"
    using u by (intro mult_right_mono) simp_all
  then show "2 powi (binade x) \<le> round64 x"
    by (simp only: e0 round64_pos [OF assms])
  from hi have "(of_int (roundHalfEven (x / ?u)) :: rat) \<le> of_int (2 ^ 53)"
    by (simp only: of_int_le_iff)
  then have "of_int (roundHalfEven (x / ?u)) * ?u \<le> (2::rat) ^ 53 * ?u"
    using u by (intro mult_right_mono) simp_all
  then show "round64 x \<le> 2 powi (binade x + 1)"
    by (simp only: e1 round64_pos [OF assms])
qed

lemma round64_nonneg: "0 \<le> x \<Longrightarrow> 0 \<le> round64 x"
proof (cases "x = 0")
  case True
  then show ?thesis by (simp add: round64_def)
next
  case False
  assume "0 \<le> x"
  with False have x: "0 < x" by simp
  have "(0::rat) \<le> 2 powi (binade x)" by simp
  with round64_bounds(1) [OF x] show ?thesis by linarith
qed

lemma round64_mono:
  assumes "0 \<le> x" "x \<le> y"
  shows "round64 x \<le> round64 y"
proof (cases "x = 0")
  case True
  with assms round64_nonneg [of y] show ?thesis by (simp add: round64_def)
next
  case False
  with assms have x: "0 < x" and y: "0 < y" by simp_all
  show ?thesis
  proof (cases "binade x = binade y")
    case True
    let ?u = "(2::rat) powi (binade y - 52)"
    have u: "0 < ?u" by simp
    from assms(2) u have "x / ?u \<le> y / ?u" by (simp add: divide_right_mono)
    then have "roundHalfEven (x / ?u) \<le> roundHalfEven (y / ?u)" by (rule roundHalfEven_mono)
    then have "(of_int (roundHalfEven (x / ?u)) :: rat) \<le> of_int (roundHalfEven (y / ?u))"
      by (simp only: of_int_le_iff)
    then have "of_int (roundHalfEven (x / ?u)) * ?u \<le> of_int (roundHalfEven (y / ?u)) * ?u"
      using u by (intro mult_right_mono) simp_all
    then show ?thesis by (simp only: round64_pos [OF x] round64_pos [OF y] True)
  next
    case False
    with binade_mono [OF x assms(2)] have "binade x + 1 \<le> binade y" by simp
    then have "(2::rat) powi (binade x + 1) \<le> 2 powi (binade y)"
      by (intro power_int_increasing) simp_all
    with round64_bounds(2) [OF x] round64_bounds(1) [OF y] show ?thesis by linarith
  qed
qed

lemma round64_of_int:
  assumes "0 \<le> n" "n < 2 ^ 53"
  shows "round64 (of_int n) = of_int n"
proof (cases "n = 0")
  case True
  then show ?thesis by (simp add: round64_def)
next
  case False
  with assms have n: "0 < n" by simp
  let ?x = "of_int n :: rat"
  have x: "0 < ?x" using n by simp
  have "2 powi (binade ?x) \<le> ?x" by (rule binade_bounds(1) [OF x])
  also have "?x < of_int (2 ^ 53)" using assms(2) by (simp only: of_int_less_iff)
  also have "of_int (2 ^ 53) = (2::rat) powi 53" by simp
  finally have lt: "(2::rat) powi (binade ?x) < 2 powi 53" .
  have "binade ?x < 53"
  proof (rule ccontr)
    assume "\<not> binade ?x < 53"
    then have "(2::rat) powi 53 \<le> 2 powi (binade ?x)"
      by (intro power_int_increasing) simp_all
    with lt show False by simp
  qed
  then have k: "0 \<le> 52 - binade ?x" by simp
  define j where "j = nat (52 - binade ?x)"
  have "(2::rat) powi (binade ?x - 52) = 2 powi (- int j)" using k by (simp add: j_def)
  also have "\<dots> = 1 / 2 ^ j" by (simp add: power_int_minus field_simps)
  finally have u: "(2::rat) powi (binade ?x - 52) = 1 / 2 ^ j" .
  have "?x / (1 / 2 ^ j) = of_int (n * 2 ^ j)" by simp
  then have "roundHalfEven (?x / (1 / 2 ^ j)) = n * 2 ^ j" by (simp only: roundHalfEven_of_int)
  then show ?thesis by (simp add: round64_pos [OF x] u)
qed


subsection \<open>The two thresholds\<close>

lemma round64_constants:
  "round64 (1 / 2) = 1 / 2"
  "round64 50 = 50"
  "round64 (1 / 2 + 1 / 2 ^ 53) = 1 / 2 + 1 / 2 ^ 53"
  "round64 (50 + 1 / 2 ^ 47) = 50 + 1 / 2 ^ 47"
  "round64 (1 / 5) = 3602879701896397 / 2 ^ 54"
  "round64 (3602879701896397 / 2 ^ 54 * 100) = 20"
  "round64 (1 / 5 + 1 / (5 * 2 ^ 52)) = 7205759403792795 / 2 ^ 55"
  "round64 (7205759403792795 / 2 ^ 55 * 100) = 20 + 1 / 2 ^ 48"
  by code_simp+

lemma share_step:
  fixes h t :: int
  assumes "0 < t" "t \<le> 2 ^ 52" "t < c * h" "0 < c"
  shows "1 / of_int c + 1 / (of_int c * 2 ^ 52) \<le> (of_int h :: rat) / of_int t"
proof -
  from assms(3) have "t + 1 \<le> c * h" by simp
  then have "(of_int (t + 1) :: rat) \<le> of_int (c * h)" by (simp only: of_int_le_iff)
  then have "(of_int t + 1) / (of_int c * of_int t) \<le> (of_int c * of_int h :: rat) / (of_int c * of_int t)"
    using assms(1,4) by (intro divide_right_mono) simp_all
  then have 1: "(of_int t + 1) / (of_int c * of_int t) \<le> (of_int h :: rat) / of_int t"
    using assms(4) by simp
  from assms(2) have "(of_int t :: rat) \<le> of_int (2 ^ 52)" by (simp only: of_int_le_iff)
  then have "(of_int t :: rat) \<le> 2 ^ 52" by simp
  then have "1 / (2 ^ 52 :: rat) \<le> 1 / of_int t"
    using assms(1) by (intro divide_left_mono) simp_all
  then have "1 / of_int c * (1 / (2 ^ 52 :: rat)) \<le> 1 / of_int c * (1 / of_int t)"
    using assms(4) by (intro mult_left_mono) simp_all
  moreover have "(of_int t + 1) / (of_int c * of_int t) = 1 / of_int c + 1 / of_int c * (1 / (of_int t :: rat))"
    using assms(1,4) by (simp add: field_simps)
  ultimately have "1 / of_int c + 1 / (of_int c * 2 ^ 52) \<le> (of_int t + 1) / (of_int c * (of_int t :: rat))"
    by simp
  with 1 show ?thesis by linarith
qed

text \<open>
  For counts that \<^verbatim>\<open>float64\<close> holds exactly, the rounded percentage is above 50 exactly
  when the share is above one half, and above 20 exactly when the share is above one fifth.
\<close>

lemma highRiskPercent_thresholds:
  assumes "0 \<le> high" "high \<le> totalCount" "0 < totalCount" "totalCount \<le> 2 ^ 52"
  shows "50 < highRiskPercent high totalCount \<longleftrightarrow> totalCount < 2 * high"
    and "20 < highRiskPercent high totalCount \<longleftrightarrow> totalCount < 5 * high"
proof -
  let ?x = "(of_int high :: rat) / of_int totalCount"
  from assms have fh: "float64 high = of_int high" and ft: "float64 totalCount = of_int totalCount"
    by (simp_all add: float64_def round64_of_int)
  have p: "highRiskPercent high totalCount = round64 (round64 ?x * 100)"
    by (simp add: highRiskPercent_def fh ft)
  from assms have x0: "0 \<le> ?x" by simp
  have q0: "0 \<le> round64 ?x" using x0 by (rule round64_nonneg)
  have upper: "highRiskPercent high totalCount \<le> round64 (r * 100)"
    if "?x \<le> k" "round64 k = r" for k r
  proof -
    from x0 that(1) have "round64 ?x \<le> round64 k" by (rule round64_mono)
    with that(2) have "round64 ?x * 100 \<le> r * 100" by simp
    with q0 show ?thesis unfolding p by (intro round64_mono) simp_all
  qed
  have lower: "round64 (r * 100) \<le> highRiskPercent high totalCount"
    if "k \<le> ?x" "0 \<le> k" "round64 k = r" for k r
  proof -
    from that(2,1) have "round64 k \<le> round64 ?x" by (rule round64_mono)
    with that(3) have le: "r * 100 \<le> round64 ?x * 100" by simp
    from that(2,3) round64_nonneg [of k] have "0 \<le> r * 100" by simp
    then show ?thesis unfolding p using le by (rule round64_mono)
  qed
  show "50 < highRiskPercent high totalCount \<longleftrightarrow> totalCount < 2 * high"
  proof (cases "totalCount < 2 * high")
    case True
    from share_step [OF assms(3,4) True] have "1 / 2 + 1 / 2 ^ 53 \<le> ?x" by simp
    from lower [OF this _ round64_constants(3)]
    have "round64 ((1 / 2 + 1 / 2 ^ 53) * 100) \<le> highRiskPercent high totalCount" by simp
    moreover have "round64 (50 + 1 / 2 ^ 47) \<le> round64 ((1 / 2 + 1 / 2 ^ 53) * 100)"
      by (intro round64_mono) simp_all
    ultimately have "50 + 1 / 2 ^ 47 \<le> highRiskPercent high totalCount"
      by (simp only: round64_constants(4))
    with True show ?thesis by simp
  next
    case False
    then have "2 * high \<le> totalCount" by simp
    then have "(of_int (2 * high) :: rat) \<le> of_int totalCount" by (simp only: of_int_le_iff)
    with assms(3) have "?x \<le> 1 / 2" by (simp add: field_simps)
    from upper [OF this round64_constants(1)] have "highRiskPercent high totalCount \<le> 50"
      by (simp add: round64_constants(2))
    with False show ?thesis by simp
  qed
  show "20 < highRiskPercent high totalCount \<longleftrightarrow> totalCount < 5 * high"
  proof (cases "totalCount < 5 * high")
    case True
    from share_step [OF assms(3,4) True] have "1 / 5 + 1 / (5 * 2 ^ 52) \<le> ?x" by simp
    from lower [OF this _ round64_constants(7)]
    have "20 + 1 / 2 ^ 48 \<le> highRiskPercent high totalCount"
      by (simp only: round64_constants(8)) simp
    with True show ?thesis by simp
  next
    case False
    then have "5 * high \<le> totalCount" by simp
    then have "(of_int (5 * high) :: rat) \<le> of_int totalCount" by (simp only: of_int_le_iff)
    with assms(3) have "?x \<le> 1 / 5" by (simp add: field_simps)
    from upper [OF this round64_constants(5)] have "highRiskPercent high totalCount \<le> 20"
      by (simp only: round64_constants(6))
    with False show ?thesis by simp
  qed
qed

subsection \<open>The two loops of the scorer\<close>

lemma lookupCount_Nil: "lookupCount [] level = 0"
  by (simp add: lookupCount_def)

lemma countAt_addUsage:
  "countAt (addUsage usage n acc) ns level
   = countAt acc ns level + (if n = ns \<and> Risk usage = level then UsageCount usage else 0)"
  by (auto simp: countAt_def addUsage_def Let_def update_conv' lookupCount_def)

lemma countAt_fold_addUsage:
  "countAt (fold (addUsage usage) nss acc) ns level
   = countAt acc ns level + (\<Sum>n\<leftarrow>nss. if n = ns \<and> Risk usage = level then UsageCount usage else 0)"
  by (induction nss arbitrary: acc) (simp_all add: countAt_addUsage)

lemma countAt_accumulate:
  "countAt (fold (\<lambda>(_, usage) acc. fold (addUsage usage) (Namespaces usage) acc) entries acc) ns level
   = countAt acc ns level
     + (\<Sum>entry\<leftarrow>entries. \<Sum>n\<leftarrow>Namespaces (snd entry).
          if n = ns \<and> Risk (snd entry) = level then UsageCount (snd entry) else 0)"
  by (induction entries arbitrary: acc) (simp_all add: case_prod_unfold countAt_fold_addUsage)

lemma distinct_addUsage: "distinct (map fst acc) \<Longrightarrow> distinct (map fst (addUsage usage n acc))"
  by (simp add: addUsage_def Let_def distinct_update)

lemma distinct_accumulate:
  "distinct (map fst acc) \<Longrightarrow>
   distinct (map fst (fold (\<lambda>(_, usage) acc. fold (addUsage usage) (Namespaces usage) acc) entries acc))"
proof (induction entries arbitrary: acc)
  case Nil
  then show ?case by simp
next
  case (Cons entry entries)
  have "distinct (map fst a) \<Longrightarrow> distinct (map fst (fold (addUsage u) nss a))" for u nss a
    by (induction nss arbitrary: a) (simp_all add: distinct_addUsage)
  with Cons show ?case by (simp add: case_prod_unfold)
qed

lemma classify_Nil: "classify [] = None"
  by (simp add: classify_def lookupCount_Nil)

lemma map_of_classified:
  assumes "distinct (map fst nsAnn)"
  shows "map_of (fold (\<lambda>(namespace, riskCounts) namespaceComplexity.
                 case classify riskCounts of
                   None \<Rightarrow> namespaceComplexity
                 | Some label \<Rightarrow> AList.update namespace label namespaceComplexity) nsAnn acc) ns
         = (case map_of nsAnn ns of
              None \<Rightarrow> map_of acc ns
            | Some riskCounts \<Rightarrow> (case classify riskCounts of None \<Rightarrow> map_of acc ns | Some label \<Rightarrow> Some label))"
  using assms
proof (induction nsAnn arbitrary: acc)
  case Nil
  then show ?case by simp
next
  case (Cons entry nsAnn)
  obtain n rc where entry: "entry = (n, rc)" by (cases entry)
  from Cons.prems have d: "distinct (map fst nsAnn)" and notin: "n \<notin> fst ` set nsAnn"
    by (simp_all add: entry)
  from notin have none: "map_of nsAnn n = None" by (simp add: map_of_eq_None_iff)
  show ?case
    using Cons.IH [OF d] none
    by (cases "classify rc") (auto simp: entry update_conv' split: option.splits)
qed

lemma analyzeNamespaceComplexity_lookup:
  "map_of (analyzeNamespaceComplexity inventory) ns
   = classify (case map_of (fold (\<lambda>(_, usage) acc. fold (addUsage usage) (Namespaces usage) acc)
                               (NginxAnnotations inventory) []) ns of
                 Some m \<Rightarrow> m | None \<Rightarrow> [])"
proof -
  let ?nsAnn = "fold (\<lambda>(_, usage) acc. fold (addUsage usage) (Namespaces usage) acc) (NginxAnnotations inventory) []"
  have "distinct (map fst ?nsAnn)" by (rule distinct_accumulate) simp
  from map_of_classified [OF this, of "[]" ns] show ?thesis
    by (simp add: analyzeNamespaceComplexity_def Let_def classify_Nil split: option.splits)
qed

lemma countAt_riskSum:
  "countAt (fold (\<lambda>(_, usage) acc. fold (addUsage usage) (Namespaces usage) acc)
              (NginxAnnotations inventory) []) ns level
   = riskSum inventory ns level"
  unfolding countAt_accumulate riskSum_def by (simp add: countAt_def lookupCount_Nil)

lemma riskSum_nonneg:
  assumes "\<forall>entry\<in>set (NginxAnnotations inventory). 0 \<le> UsageCount (snd entry)"
  shows "0 \<le> riskSum inventory ns level"
  unfolding riskSum_def using assms
  by (fastforce intro!: sum_list_nonneg)


lemma share_iff:
  fixes high totalCount :: int
  assumes "0 < totalCount" "0 < c"
  shows "1 / of_int c < (of_int high :: rat) / of_int totalCount \<longleftrightarrow> totalCount < c * high"
proof -
  have "1 / of_int c < (of_int high :: rat) / of_int totalCount
      \<longleftrightarrow> (of_int totalCount :: rat) < of_int c * of_int high"
    using assms by (simp add: field_simps)
  also have "\<dots> \<longleftrightarrow> (of_int totalCount :: rat) < of_int (c * high)" by simp
  also have "\<dots> \<longleftrightarrow> totalCount < c * high" by (simp only: of_int_less_iff)
  finally show ?thesis .
qed

text \<open>
  The scorer on any inventory whose usage counts are not negative, for a namespace whose
  accumulated total is a number that \<^verbatim>\<open>float64\<close> holds exactly.
\<close>

lemma scorer_labels:
  assumes nonneg: "\<forall>entry\<in>set (NginxAnnotations inventory). 0 \<le> UsageCount (snd entry)"
      and bound: "totalSum inventory ns \<le> 2 ^ 52"
  shows "map_of (analyzeNamespaceComplexity inventory) ns
         = (if totalSum inventory ns = 0 then None
            else if 1 / 2 < (of_int (riskSum inventory ns RiskHigh) :: rat) / of_int (totalSum inventory ns)
              then Some ''HIGH complexity (many high-risk annotations)''
            else if 1 / 5 < (of_int (riskSum inventory ns RiskHigh) :: rat) / of_int (totalSum inventory ns)
              then Some ''MEDIUM complexity (some high-risk annotations)''
            else Some ''LOW complexity (mostly auto-migratable)'')"
proof -
  let ?rc = "case map_of (fold (\<lambda>(_, usage) acc. fold (addUsage usage) (Namespaces usage) acc)
                               (NginxAnnotations inventory) []) ns of Some m \<Rightarrow> m | None \<Rightarrow> []"
  have cnt: "lookupCount ?rc level = riskSum inventory ns level" for level
    using countAt_riskSum [of inventory ns level] by (simp add: countAt_def)
  have tot: "lookupCount ?rc RiskAuto + lookupCount ?rc RiskManual + lookupCount ?rc RiskHigh
      = totalSum inventory ns"
    by (simp add: cnt totalSum_def)
  note nn = riskSum_nonneg [OF nonneg]
  have h0: "0 \<le> riskSum inventory ns RiskHigh" by (rule nn)
  have hle: "riskSum inventory ns RiskHigh \<le> totalSum inventory ns"
    using nn [of ns RiskAuto] nn [of ns RiskManual] by (simp add: totalSum_def)
  have t0: "0 \<le> totalSum inventory ns" using h0 hle by simp
  have cl: "classify ?rc
      = (if totalSum inventory ns = 0 then None
         else if 50 < highRiskPercent (riskSum inventory ns RiskHigh) (totalSum inventory ns)
           then Some ''HIGH complexity (many high-risk annotations)''
         else if 20 < highRiskPercent (riskSum inventory ns RiskHigh) (totalSum inventory ns)
           then Some ''MEDIUM complexity (some high-risk annotations)''
         else Some ''LOW complexity (mostly auto-migratable)'')"
    by (simp add: classify_def Let_def cnt totalSum_def)
  show ?thesis
  proof (cases "totalSum inventory ns = 0")
    case True
    then show ?thesis by (simp add: analyzeNamespaceComplexity_lookup cl)
  next
    case False
    with t0 have pos: "0 < totalSum inventory ns" by simp
    note th = highRiskPercent_thresholds [OF h0 hle pos bound]
    have e50: "50 < highRiskPercent (riskSum inventory ns RiskHigh) (totalSum inventory ns)
        \<longleftrightarrow> 1 / 2 < (of_int (riskSum inventory ns RiskHigh) :: rat) / of_int (totalSum inventory ns)"
      unfolding th(1) using share_iff [OF pos, of 2 "riskSum inventory ns RiskHigh"] by simp
    have e20: "20 < highRiskPercent (riskSum inventory ns RiskHigh) (totalSum inventory ns)
        \<longleftrightarrow> 1 / 5 < (of_int (riskSum inventory ns RiskHigh) :: rat) / of_int (totalSum inventory ns)"
      unfolding th(2) using share_iff [OF pos, of 5 "riskSum inventory ns RiskHigh"] by simp
    show ?thesis by (simp only: analyzeNamespaceComplexity_lookup cl e50 e20)
  qed
qed


text \<open>The boundary cases: shares of 50, 20, 51 and 21 percent.\<close>

lemma threshold_boundaries:
  "classify [(RiskHigh, 1), (RiskAuto, 1)] = Some ''MEDIUM complexity (some high-risk annotations)''"
  "classify [(RiskHigh, 1), (RiskAuto, 4)] = Some ''LOW complexity (mostly auto-migratable)''"
  "classify [(RiskHigh, 51), (RiskManual, 49)] = Some ''HIGH complexity (many high-risk annotations)''"
  "classify [(RiskHigh, 21), (RiskManual, 79)] = Some ''MEDIUM complexity (some high-risk annotations)''"
  by code_simp+

subsection \<open>The scorer on a built inventory\<close>

text \<open>
  In an inventory that \<^const>\<open>BuildAnnotationInventory\<close> returns, the namespaces of a
  record are listed once each and a record has one risk level, so a namespace's total is
  at most the sum of the usage counts of the nginx map, which is at most the number of
  annotation entries of the input.
\<close>

lemma sum_at_distinct:
  fixes c :: int
  shows "distinct nss \<Longrightarrow> (\<Sum>n\<leftarrow>nss. if n = ns \<and> P then c else 0) = (if ns \<in> set nss \<and> P then c else 0)"
  by (induction nss) auto

lemma totalSum_le_counts:
  assumes "\<forall>entry\<in>set (NginxAnnotations inventory).
             0 \<le> UsageCount (snd entry) \<and> distinct (Namespaces (snd entry))"
  shows "totalSum inventory ns \<le> (\<Sum>entry\<leftarrow>NginxAnnotations inventory. UsageCount (snd entry))"
proof -
  let ?f = "\<lambda>level entry. \<Sum>n\<leftarrow>Namespaces (snd entry).
              if n = ns \<and> Risk (snd entry) = level then UsageCount (snd entry) else 0"
  have "totalSum inventory ns
      = (\<Sum>entry\<leftarrow>NginxAnnotations inventory. ?f RiskAuto entry + ?f RiskManual entry + ?f RiskHigh entry)"
    by (simp add: totalSum_def riskSum_def sum_list_addf)
  also have "\<dots> \<le> (\<Sum>entry\<leftarrow>NginxAnnotations inventory. UsageCount (snd entry))"
  proof (rule sum_list_mono)
    fix entry
    assume "entry \<in> set (NginxAnnotations inventory)"
    with assms have "0 \<le> UsageCount (snd entry)" and d: "distinct (Namespaces (snd entry))" by auto
    then show "?f RiskAuto entry + ?f RiskManual entry + ?f RiskHigh entry \<le> UsageCount (snd entry)"
      using risk_levels_distinct by (auto simp: sum_at_distinct [OF d])
  qed
  finally show ?thesis .
qed

lemma length_filter_disjoint:
  "\<forall>x\<in>set xs. \<not> (P x \<and> Q x) \<Longrightarrow>
   length (filter (\<lambda>x. P x \<or> Q x) xs) = length (filter P xs) + length (filter Q xs)"
  by (induction xs) auto

lemma sum_eventsOf_distinct:
  "distinct ks \<Longrightarrow>
   (\<Sum>k\<leftarrow>ks. int (length (eventsOf k evs))) = int (length (filter (\<lambda>e. fst e \<in> set ks) evs))"
proof (induction ks)
  case Nil
  then show ?case by simp
next
  case (Cons k ks)
  then have "length (filter (\<lambda>e. fst e = k \<or> fst e \<in> set ks) evs)
      = length (filter (\<lambda>e. fst e = k) evs) + length (filter (\<lambda>e. fst e \<in> set ks) evs)"
    by (intro length_filter_disjoint) auto
  with Cons show ?case by (simp add: eventsOf_def case_prod_unfold)
qed

lemma length_annotationEvents:
  "int (length (concat (map (annotationEvents keep) analyses))) \<le> annotationEntries analyses"
proof (induction analyses)
  case Nil
  then show ?case by (simp add: annotationEntries_def)
next
  case (Cons a analyses)
  have "length (annotationEvents keep a) \<le> length (Annotations (Resource a))"
    by (simp add: annotationEvents_def)
  with Cons show ?case by (simp add: annotationEntries_def)
qed

lemma Build_nginx_entry:
  assumes "entry \<in> set (NginxAnnotations (BuildAnnotationInventory visit analyses))"
  shows "UsageCount (snd entry)
           = int (length (eventsOf (fst entry) (concat (map (annotationEvents inNginx) analyses))))"
    and "distinct (Namespaces (snd entry))"
proof -
  from assms have "(fst entry, snd entry) \<in> set (fold (applyEvent attachRuleInfo)
      (concat (map (annotationEvents inNginx) analyses)) [])"
    by (simp add: Build_maps)
  then have u: "snd entry = perKey attachRuleInfo (fst entry)
      (concat (map (annotationEvents inNginx) analyses)) (newUsage (fst entry))"
    by (rule entry_fold_applyEvent)
  show "UsageCount (snd entry)
      = int (length (eventsOf (fst entry) (concat (map (annotationEvents inNginx) analyses))))"
    by (subst u) (simp add: perKey_stats(2) [OF keepsStats_attachRuleInfo] newUsage_fields)
  show "distinct (Namespaces (snd entry))"
    by (subst u) (simp add: perKey_stats(4) [OF keepsStats_attachRuleInfo] newUsage_fields)
qed

lemma Build_totalSum_le:
  "totalSum (BuildAnnotationInventory visit analyses) ns \<le> annotationEntries analyses"
proof -
  let ?inv = "BuildAnnotationInventory visit analyses"
  let ?evs = "concat (map (annotationEvents inNginx) analyses)"
  have "totalSum ?inv ns \<le> (\<Sum>entry\<leftarrow>NginxAnnotations ?inv. UsageCount (snd entry))"
    by (rule totalSum_le_counts) (simp add: Build_nginx_entry)
  also have "\<dots> = (\<Sum>entry\<leftarrow>NginxAnnotations ?inv. int (length (eventsOf (fst entry) ?evs)))"
    by (rule arg_cong [where f = sum_list]) (simp add: Build_nginx_entry(1))
  also have "\<dots> = (\<Sum>k\<leftarrow>map fst (NginxAnnotations ?inv). int (length (eventsOf k ?evs)))"
    by (simp add: comp_def)
  also have "\<dots> = int (length (filter (\<lambda>e. fst e \<in> set (map fst (NginxAnnotations ?inv))) ?evs))"
    by (rule sum_eventsOf_distinct) (simp add: Build_maps distinct_fold_applyEvent)
  also have "\<dots> \<le> int (length ?evs)" by simp
  also have "\<dots> \<le> annotationEntries analyses" by (rule length_annotationEvents)
  finally show ?thesis .
qed

text \<open>
  C6. Take the inventory that \<^const>\<open>BuildAnnotationInventory\<close> returns for any list of
  analyses, in any visit order of its summary loop, the analysed resources holding at most
  \<open>2\<^sup>5\<^sup>2\<close> annotation entries together (4 503 599 627 370 496 map entries, beyond the memory
  any machine gives the program). For every namespace the scorer omits it when its
  accumulated total \<open>auto + manual + high\<close> is 0 (as for a namespace that no nginx record
  lists); otherwise it labels it HIGH when the share \<open>high / total\<close> is above 1/2, MEDIUM
  when the share is above 1/5 and at most 1/2, LOW otherwise. A share of exactly 1/2 gives
  MEDIUM and a share of exactly 1/5 gives LOW.
\<close>

theorem analyzeNamespaceComplexity_labels:
  assumes "annotationEntries analyses \<le> 2 ^ 52"
  shows "map_of (analyzeNamespaceComplexity (BuildAnnotationInventory visit analyses)) ns
         = (if totalSum (BuildAnnotationInventory visit analyses) ns = 0 then None
            else if 1 / 2 < (of_int (riskSum (BuildAnnotationInventory visit analyses) ns RiskHigh) :: rat)
                              / of_int (totalSum (BuildAnnotationInventory visit analyses) ns)
              then Some ''HIGH complexity (many high-risk annotations)''
            else if 1 / 5 < (of_int (riskSum (BuildAnnotationInventory visit analyses) ns RiskHigh) :: rat)
                              / of_int (totalSum (BuildAnnotationInventory visit analyses) ns)
              then Some ''MEDIUM complexity (some high-risk annotations)''
            else Some ''LOW complexity (mostly auto-migratable)'')"
proof (rule scorer_labels)
  show "\<forall>entry\<in>set (NginxAnnotations (BuildAnnotationInventory visit analyses)). 0 \<le> UsageCount (snd entry)"
    by (simp add: Build_nginx_entry(1))
  from Build_totalSum_le [of visit analyses ns] assms
  show "totalSum (BuildAnnotationInventory visit analyses) ns \<le> 2 ^ 52" by simp
qed

theorem analyzeNamespaceComplexity_labels_witness:
  "annotationEntries [exampleAnalysis] \<le> 2 ^ 52 \<and>
   totalSum (BuildAnnotationInventory exampleVisit [exampleAnalysis]) ''prod'' = 1 \<and>
   riskSum (BuildAnnotationInventory exampleVisit [exampleAnalysis]) ''prod'' RiskHigh = 1 \<and>
   map_of (analyzeNamespaceComplexity (BuildAnnotationInventory exampleVisit [exampleAnalysis])) ''prod''
     = Some ''HIGH complexity (many high-risk annotations)''"
proof -
  have sums: "totalSum exampleInventory ''prod'' = 1" "riskSum exampleInventory ''prod'' RiskHigh = 1"
    by code_simp+
  have entries: "annotationEntries [exampleAnalysis] = 2"
    by (simp add: annotationEntries_def exampleAnalysis_def exampleResource_def)
  then have small: "annotationEntries [exampleAnalysis] \<le> 2 ^ 52" by simp
  from analyzeNamespaceComplexity_labels [OF small, of exampleVisit "''prod''"] small show ?thesis
    unfolding example_inventory by (simp add: sums)
qed

end
